theory Spec2Isabelle
  imports Main
begin

section \<open>JavaScript strings\<close>

text \<open>
  A JavaScript string is a finite sequence of UTF-16 code units. A code unit is modelled
  by its number (a valid one is below 65536; no function below depends on that bound),
  so \<open>line[j]\<close> is \<open>line ! j\<close> and \<open>line.length\<close> is \<open>length line\<close>.
  \<open>js\<close> writes an ASCII literal as such a sequence.
\<close>

type_synonym jchar = nat
type_synonym jstring = "jchar list"

definition js :: "string \<Rightarrow> jstring" where
  "js s = map of_char s"

abbreviation star :: jchar where "star \<equiv> 42"
abbreviation backtick :: jchar where "backtick \<equiv> 96"
abbreviation apostrophe :: jchar where "apostrophe \<equiv> 39"
abbreviation dquote :: jchar where "dquote \<equiv> 34"
abbreviation space :: jchar where "space \<equiv> 32"
abbreviation newline :: jchar where "newline \<equiv> 10"
abbreviation creturn :: jchar where "creturn \<equiv> 13"
abbreviation hash :: jchar where "hash \<equiv> 35"
abbreviation underscore :: jchar where "underscore \<equiv> 95"

text \<open>The opening guillemet is U+00AB and the closing guillemet is U+00BB.\<close>

abbreviation guilOpen :: jchar where "guilOpen \<equiv> 171"
abbreviation guilClose :: jchar where "guilClose \<equiv> 187"

text \<open>
  The class \<open>\s\<close> of a regular expression and the characters \<open>trim()\<close> strips are the
  same set: ECMAScript's WhiteSpace and LineTerminator code points.
\<close>

definition isLineTerminator :: "jchar \<Rightarrow> bool" where
  "isLineTerminator c = (c = 10 \<or> c = 13 \<or> c = 8232 \<or> c = 8233)"

definition isSpace :: "jchar \<Rightarrow> bool" where
  "isSpace c = (c = 9 \<or> c = 10 \<or> c = 11 \<or> c = 12 \<or> c = 13 \<or> c = 32 \<or> c = 160
     \<or> c = 5760 \<or> (8192 \<le> c \<and> c \<le> 8202) \<or> c = 8232 \<or> c = 8233 \<or> c = 8239
     \<or> c = 8287 \<or> c = 12288 \<or> c = 65279)"

text \<open>The dot of a regular expression (no \<open>s\<close> flag): anything but a line terminator.\<close>

definition isDot :: "jchar \<Rightarrow> bool" where
  "isDot c = (c \<noteq> 10 \<and> c \<noteq> 13 \<and> c \<noteq> 8232 \<and> c \<noteq> 8233)"

text \<open>\<open>\d\<close> is the ASCII digits.\<close>

definition isDigit :: "jchar \<Rightarrow> bool" where
  "isDigit c = (48 \<le> c \<and> c \<le> 57)"

definition trim :: "jstring \<Rightarrow> jstring" where
  "trim s = rev (dropWhile isSpace (rev (dropWhile isSpace s)))"

text \<open>\<open>parts.join(sep)\<close>.\<close>

fun joinWith :: "jstring \<Rightarrow> jstring list \<Rightarrow> jstring" where
  "joinWith sep [] = []"
| "joinWith sep [x] = x"
| "joinWith sep (x # y # ys) = x @ sep @ joinWith sep (y # ys)"

text \<open>\<open>text.split('\n')\<close>: the empty string gives one empty line.\<close>

fun splitLines :: "jstring \<Rightarrow> jstring list" where
  "splitLines [] = [[]]"
| "splitLines (c # cs) =
     (if c = newline then [] # splitLines cs
      else (case splitLines cs of [] \<Rightarrow> [[c]] | l # ls \<Rightarrow> (c # l) # ls))"

text \<open>\<open>String(n)\<close> for a non-negative integer: its decimal digits.\<close>

function decimal :: "nat \<Rightarrow> jstring" where
  "decimal n = (if n < 10 then [48 + n] else decimal (n div 10) @ [48 + n mod 10])"
  by pat_completeness auto
termination
  by (relation "measure id") auto

declare decimal.simps [simp del]

text \<open>
  \<open>parseInt(ds, 10)\<close> on a string of ASCII digits. The source's value is a double, exact
  below \<open>2^53\<close>; it is only used as an index into an array that is shorter than that.
\<close>

definition parseInt :: "jstring \<Rightarrow> nat" where
  "parseInt ds = foldl (\<lambda>a d. 10 * a + (d - 48)) 0 ds"

section \<open>Regular expressions\<close>

text \<open>
  A regular expression is run the way the engine runs it: by backtracking, the first
  alternative and the first repetition count that let the rest of the pattern match
  winning. A pattern takes the text still to be read and a continuation for the rest of
  the pattern; \<open>None\<close> is failure, which makes the caller try its next choice.
\<close>

type_synonym 'r rx = "jstring \<Rightarrow> (jstring \<Rightarrow> 'r option) \<Rightarrow> 'r option"

text \<open>A literal string.\<close>

fun lit :: "jstring \<Rightarrow> 'r rx" where
  "lit [] s k = k s"
| "lit (p # ps) [] k = None"
| "lit (p # ps) (c # cs) k = (if c = p then lit ps cs k else None)"

text \<open>\<open>X*\<close> for a character class, greedy: the longest run first, then shorter ones.\<close>

fun starG :: "(jchar \<Rightarrow> bool) \<Rightarrow> 'r rx" where
  "starG p [] k = k []"
| "starG p (c # cs) k =
     (if p c then (case starG p cs k of Some r \<Rightarrow> Some r | None \<Rightarrow> k (c # cs))
      else k (c # cs))"

text \<open>\<open>X+\<close>, greedy.\<close>

definition plusG :: "(jchar \<Rightarrow> bool) \<Rightarrow> 'r rx" where
  "plusG p s k = (case s of [] \<Rightarrow> None | c # cs \<Rightarrow> if p c then starG p cs k else None)"

text \<open>\<open>X*?\<close>, lazy: the shortest run first, then longer ones.\<close>

fun starL :: "(jchar \<Rightarrow> bool) \<Rightarrow> 'r rx" where
  "starL p [] k = k []"
| "starL p (c # cs) k =
     (case k (c # cs) of Some r \<Rightarrow> Some r | None \<Rightarrow> if p c then starL p cs k else None)"

text \<open>\<open>A|B\<close>: \<open>B\<close> is tried only when nothing after \<open>A\<close> matches.\<close>

definition alt :: "'r rx \<Rightarrow> 'r rx \<Rightarrow> 'r rx" where
  "alt a b s k = (case a s k of Some r \<Rightarrow> Some r | None \<Rightarrow> b s k)"

text \<open>\<open>$\<close> without the \<open>m\<close> flag: the end of the text.\<close>

definition eoi :: "'r rx" where
  "eoi s k = (if s = [] then k s else None)"

text \<open>\<open>^\<close> without the \<open>m\<close> flag: the start of the text, known to the caller.\<close>

definition bol :: "bool \<Rightarrow> 'r rx" where
  "bol atStart s k = (if atStart then k s else None)"

text \<open>
  \<open>text.replace(re, f)\<close> with a global \<open>re\<close>. The matcher \<open>m\<close> is tried at each position
  from the left; it gives the replacement and the number of code units matched, and the
  scan goes on behind the match (one further after an empty match).
\<close>

fun replaceAll :: "(jstring \<Rightarrow> (jstring \<times> nat) option) \<Rightarrow> jstring \<Rightarrow> jstring" where
  "replaceAll m [] = (case m [] of Some (rep, n) \<Rightarrow> rep | None \<Rightarrow> [])"
| "replaceAll m (c # cs) =
     (case m (c # cs) of
        Some (rep, n) \<Rightarrow>
          (if n = 0 then rep @ c # replaceAll m cs else rep @ replaceAll m (drop (n - 1) cs))
      | None \<Rightarrow> c # replaceAll m cs)"

text \<open>\<open>text.replace(re, r)\<close> with a \<open>re\<close> that is not global: the first match only.\<close>

fun replaceFirst :: "(jstring \<Rightarrow> (jstring \<times> nat) option) \<Rightarrow> jstring \<Rightarrow> jstring" where
  "replaceFirst m [] = (case m [] of Some (rep, n) \<Rightarrow> rep | None \<Rightarrow> [])"
| "replaceFirst m (c # cs) =
     (case m (c # cs) of
        Some (rep, n) \<Rightarrow> rep @ drop n (c # cs)
      | None \<Rightarrow> c # replaceFirst m cs)"

text \<open>A literal pattern \<open>pat\<close> replaced by the literal \<open>rep\<close>.\<close>

definition litRule :: "jstring \<Rightarrow> jstring \<Rightarrow> jstring \<Rightarrow> (jstring \<times> nat) option" where
  "litRule pat rep s = lit pat s (\<lambda>rest. Some (rep, length s - length rest))"

section \<open>Parser: chapters\<close>

record Chapter =
  title :: jstring
  content :: jstring

datatype jsError = TypeError

text \<open>
  The heading pattern \<open>/(?:^|\n)####\s+(.+)/g\<close>, tried at one position; \<open>atStart\<close> says
  whether the position is the start of the text. A match gives the captured group and
  the number of code units matched.
\<close>

definition headingRegex :: "bool \<Rightarrow> jstring \<Rightarrow> (jstring \<times> nat) option" where
  "headingRegex atStart s =
     alt (bol atStart) (lit [newline]) s (\<lambda>s1.
       lit (js ''####'') s1 (\<lambda>s2.
         plusG isSpace s2 (\<lambda>s3.
           plusG isDot s3 (\<lambda>s4.
             Some (take (length s3 - length s4) s3, length s - length s4)))))"

text \<open>
  \<open>regex.exec(text)\<close> from \<open>lastIndex = 0\<close>: the leftmost position with a match, as
  (index, captured group, matched length). \<open>i\<close> is the index of the position tried.
\<close>

fun execFrom :: "nat \<Rightarrow> jstring \<Rightarrow> (nat \<times> jstring \<times> nat) option" where
  "execFrom i [] = (case headingRegex (i = 0) [] of Some (g, n) \<Rightarrow> Some (i, g, n) | None \<Rightarrow> None)"
| "execFrom i (c # cs) =
     (case headingRegex (i = 0) (c # cs) of
        Some (g, n) \<Rightarrow> Some (i, g, n)
      | None \<Rightarrow> execFrom (i + 1) cs)"

text \<open>
  \<open>Parser.getChapters\<close>. With a first match, the source builds the introduction and then
  evaluates \<open>firstMatch.trim()\<close>, where \<open>firstMatch\<close> is the array \<open>exec\<close> returned: an
  array has no \<open>trim\<close>, so the call raises a TypeError and nothing after it runs.
\<close>

definition getChapters :: "jstring \<Rightarrow> jsError + Chapter list" where
  "getChapters fullText =
     (if fullText = [] then Inr []
      else
        let text = replaceAll (litRule [creturn, newline] [newline]) fullText in
        (case execFrom 0 text of
           Some (index, g, n) \<Rightarrow>
             (let introText = trim (take index text);
                  chapters = (if length introText > 0
                              then [\<lparr>title = js ''Introduction'', content = introText\<rparr>]
                              else [])
              in Inl TypeError)
         | None \<Rightarrow>
             Inr (if length (trim text) > 0
                  then [\<lparr>title = js ''Chapitre 1'', content = trim text\<rparr>]
                  else [])))"

text \<open>\<open>Parser.reassemble\<close>.\<close>

definition chapterBlock :: "Chapter \<Rightarrow> jstring" where
  "chapterBlock ch =
     (let t = js ''#### '' @ title ch;
          c = (if content ch \<noteq> [] then trim (content ch) else [])
      in if c \<noteq> [] then t @ [newline, newline] @ c else t)"

definition reassemble :: "Chapter list \<Rightarrow> jstring" where
  "reassemble chaptersData =
     (if length chaptersData = 0 then []
      else joinWith [newline, newline, newline] (map chapterBlock chaptersData))"

section \<open>TypographyEngine\<close>

text \<open>\<open>isAlphanumeric\<close>: the class \<open>[A-Za-z\<dots>0-9]\<close> with the ranges U+00C0 to U+00D6,
  U+00D8 to U+00F6 and U+00F8 to U+00FF, tested on one code unit.\<close>

definition isAlphanumeric :: "jchar \<Rightarrow> bool" where
  "isAlphanumeric c =
     ((65 \<le> c \<and> c \<le> 90) \<or> (97 \<le> c \<and> c \<le> 122) \<or> (192 \<le> c \<and> c \<le> 214)
      \<or> (216 \<le> c \<and> c \<le> 246) \<or> (248 \<le> c \<and> c \<le> 255) \<or> (48 \<le> c \<and> c \<le> 57))"

subsection \<open>Extraction and restoration of code\<close>

text \<open>
  The extraction pattern as the source has it: two backticks, backticks (lazy), then
  three backticks or the end of the text; or else backticks (greedy, one or more) and a
  backtick. A match gives the number of code units matched.
\<close>

definition extractRegex :: "jstring \<Rightarrow> nat option" where
  "extractRegex s =
     alt (\<lambda>s0 k. lit [backtick, backtick] s0 (\<lambda>s1.
            starL (\<lambda>c. c = backtick) s1 (\<lambda>s2.
              alt (lit [backtick, backtick, backtick]) eoi s2 k)))
         (\<lambda>s0 k. plusG (\<lambda>c. c = backtick) s0 (\<lambda>s1. lit [backtick] s1 k))
       s (\<lambda>rest. Some (length s - length rest))"

definition placeholder :: "nat \<Rightarrow> jstring" where
  "placeholder i = js ''__CODE_BLOCK_'' @ decimal i @ js ''__''"

text \<open>
  The global replace of step 1, with its callback: each match is pushed on
  \<open>codePlaceholders\<close> and replaced by the token of its index. The result is the text
  and the array.
\<close>

fun extractCode :: "jstring list \<Rightarrow> jstring \<Rightarrow> jstring \<times> jstring list" where
  "extractCode codePlaceholders [] = ([], codePlaceholders)"
| "extractCode codePlaceholders (c # cs) =
     (case extractRegex (c # cs) of
        Some n \<Rightarrow>
          (let (t, ph) = extractCode (codePlaceholders @ [take n (c # cs)]) (drop (n - 1) cs)
           in (placeholder (length codePlaceholders) @ t, ph))
      | None \<Rightarrow>
          (let (t, ph) = extractCode codePlaceholders cs in (c # t, ph)))"

text \<open>The token pattern \<open>/__CODE_BLOCK_(\d+)__/\<close> at one position: the digits and the
  number of code units matched.\<close>

definition tokenRegex :: "jstring \<Rightarrow> (jstring \<times> nat) option" where
  "tokenRegex s =
     lit (js ''__CODE_BLOCK_'') s (\<lambda>s1.
       plusG isDigit s1 (\<lambda>s2.
         lit (js ''__'') s2 (\<lambda>s3.
           Some (take (length s1 - length s2) s1, length s - length s3))))"

text \<open>\<open>codePlaceholders[i]\<close> as the callback's result: a missing element is
  \<open>undefined\<close>, which the replace turns into the string \<open>"undefined"\<close>.\<close>

definition placeholderAt :: "jstring list \<Rightarrow> nat \<Rightarrow> jstring" where
  "placeholderAt codePlaceholders i =
     (if i < length codePlaceholders then codePlaceholders ! i else js ''undefined'')"

definition restoreRule :: "jstring list \<Rightarrow> jstring \<Rightarrow> (jstring \<times> nat) option" where
  "restoreRule codePlaceholders s =
     (case tokenRegex s of
        Some (index, n) \<Rightarrow> Some (placeholderAt codePlaceholders (parseInt index), n)
      | None \<Rightarrow> None)"

definition restoreCode :: "jstring list \<Rightarrow> jstring \<Rightarrow> jstring" where
  "restoreCode codePlaceholders t = replaceAll (restoreRule codePlaceholders) t"

text \<open>\<open>/^__CODE_BLOCK_\d+__$/.test(s)\<close>.\<close>

definition isPlaceholderLine :: "jstring \<Rightarrow> bool" where
  "isPlaceholderLine s =
     (lit (js ''__CODE_BLOCK_'') s (\<lambda>s1.
        plusG isDigit s1 (\<lambda>s2.
          lit (js ''__'') s2 (\<lambda>s3.
            eoi s3 (\<lambda>s4. Some ())))) \<noteq> None)"

subsection \<open>fixEmphasisSpaces\<close>

text \<open>
  The three patterns of one marker \<open>m\<close>, each with the replacement \<open>'$1$2$3'\<close>:
  \<open>(m)\s+(.*?)\s+(m)\<close>, \<open>(m)\s+(.*?)(m)\<close> and \<open>(m)(.*?)\s+(m)\<close>.
\<close>

definition emphBoth :: "jstring \<Rightarrow> jstring \<Rightarrow> (jstring \<times> nat) option" where
  "emphBoth m s =
     lit m s (\<lambda>s1.
       plusG isSpace s1 (\<lambda>s2.
         starL isDot s2 (\<lambda>s3.
           plusG isSpace s3 (\<lambda>s4.
             lit m s4 (\<lambda>s5.
               Some (m @ take (length s2 - length s3) s2 @ m, length s - length s5))))))"

definition emphLead :: "jstring \<Rightarrow> jstring \<Rightarrow> (jstring \<times> nat) option" where
  "emphLead m s =
     lit m s (\<lambda>s1.
       plusG isSpace s1 (\<lambda>s2.
         starL isDot s2 (\<lambda>s3.
           lit m s3 (\<lambda>s5.
             Some (m @ take (length s2 - length s3) s2 @ m, length s - length s5)))))"

definition emphTrail :: "jstring \<Rightarrow> jstring \<Rightarrow> (jstring \<times> nat) option" where
  "emphTrail m s =
     lit m s (\<lambda>s2.
       starL isDot s2 (\<lambda>s3.
         plusG isSpace s3 (\<lambda>s4.
           lit m s4 (\<lambda>s5.
             Some (m @ take (length s2 - length s3) s2 @ m, length s - length s5)))))"

definition collapse :: "jstring \<Rightarrow> jstring \<Rightarrow> jstring" where
  "collapse m line =
     replaceAll (emphTrail m) (replaceAll (emphLead m) (replaceAll (emphBoth m) line))"

text \<open>The list pattern \<open>/^(\s*)\*(\s+)/\<close> at the start of the line, with the replacement
  \<open>'$1__LIST__$2'\<close>.\<close>

definition listRegex :: "jstring \<Rightarrow> (jstring \<times> nat) option" where
  "listRegex s =
     starG isSpace s (\<lambda>s1.
       lit [star] s1 (\<lambda>s2.
         plusG isSpace s2 (\<lambda>s3.
           Some (take (length s - length s1) s @ js ''__LIST__'' @ take (length s2 - length s3) s2,
                 length s - length s3))))"

definition maskList :: "jstring \<Rightarrow> jstring" where
  "maskList line = (case listRegex line of Some (rep, n) \<Rightarrow> rep @ drop n line | None \<Rightarrow> line)"

definition unmaskList :: "jstring \<Rightarrow> jstring" where
  "unmaskList line = replaceFirst (litRule (js ''__LIST__'') [star]) line"

definition fixEmphasisSpaces :: "jstring \<Rightarrow> jstring" where
  "fixEmphasisSpaces line0 =
     (let line = collapse [star, star, star] line0;
          line = collapse [star, star] line;
          isList = (listRegex line \<noteq> None);
          line = (if isList then maskList line else line);
          line = collapse [star] line
      in if isList then unmaskList line else line)"

subsection \<open>Quotes\<close>

text \<open>
  The scan of step B, from index \<open>j\<close>, with the dialogue state and the line built so
  far; it returns the line built and the state at the end of the line.
\<close>

function quoteLoop :: "jstring \<Rightarrow> nat \<Rightarrow> bool \<Rightarrow> jstring \<Rightarrow> jstring \<times> bool" where
  "quoteLoop line j isDialogueOpen smartLine =
     (if j < length line then
        (let c = line ! j in
         if c = guilOpen then quoteLoop line (j + 1) True (smartLine @ [c])
         else if c = guilClose then quoteLoop line (j + 1) False (smartLine @ [c])
         else if c = apostrophe \<or> c = dquote then
           (let prev = (if j > 0 then line ! (j - 1) else space);
                next = (if j < length line - 1 then line ! (j + 1) else space)
            in if isAlphanumeric prev \<and> isAlphanumeric next
               then quoteLoop line (j + 1) isDialogueOpen (smartLine @ [c])
               else if isDialogueOpen
                    then quoteLoop line (j + 1) False (smartLine @ [guilClose])
                    else quoteLoop line (j + 1) True (smartLine @ [guilOpen]))
         else quoteLoop line (j + 1) isDialogueOpen (smartLine @ [c]))
      else (smartLine, isDialogueOpen))"
  by pat_completeness auto
termination
  by (relation "measure (\<lambda>(line, j, isDialogueOpen, smartLine). length line - j)") auto

declare quoteLoop.simps [simp del]

subsection \<open>reorderMarkers\<close>

definition reorderMarkers :: "jstring \<Rightarrow> jstring" where
  "reorderMarkers line0 =
     (let line = replaceAll (litRule [star, star, star, guilOpen] [guilOpen, star, star, star]) line0;
          line = replaceAll (litRule [star, star, guilOpen] [guilOpen, star, star]) line;
          line = replaceAll (litRule [star, guilOpen] [guilOpen, star]) line;
          line = replaceAll (litRule [guilClose, star, star, star] [star, star, star, guilClose]) line;
          line = replaceAll (litRule [guilClose, star, star] [star, star, guilClose]) line;
          line = replaceAll (litRule [guilClose, star] [star, guilClose]) line
      in line)"

subsection \<open>process\<close>

text \<open>
  The loop over the lines, with the dialogue state: a line that is one token is left as
  it is; any other line goes through steps A, B and C. It returns the lines and the
  state after the last one.
\<close>

fun processLines :: "bool \<Rightarrow> jstring list \<Rightarrow> jstring list \<times> bool" where
  "processLines isDialogueOpen [] = ([], isDialogueOpen)"
| "processLines isDialogueOpen (line # rest) =
     (if isPlaceholderLine (trim line) then
        (let (ls, st) = processLines isDialogueOpen rest in (line # ls, st))
      else
        (let line1 = fixEmphasisSpaces line;
             (smartLine, isOpen) = quoteLoop line1 0 isDialogueOpen [];
             line2 = reorderMarkers smartLine;
             (ls, st) = processLines isOpen rest
         in (line2 # ls, st)))"

definition process :: "jstring \<Rightarrow> jstring" where
  "process text =
     (if text = [] then text
      else
        (let (processedText, codePlaceholders) = extractCode [] text;
             lines = splitLines processedText;
             (lines', st) = processLines False lines;
             processedText = joinWith [newline] lines'
         in restoreCode codePlaceholders processedText))"

section \<open>The specification's quote classification\<close>

text \<open>
  The alphanumeric characters in words: an ASCII digit, an ASCII letter, or a character of
  the Latin-1 block from U+00C0 to U+00FF other than the multiplication sign U+00D7 and
  the division sign U+00F7. The letters outside Latin-1 (U+0152 and U+0153, the ligatures
  OE and oe, and U+0178, Y with diaeresis, among them) are not in it.
\<close>

definition latin1LetterOrDigit :: "jchar \<Rightarrow> bool" where
  "latin1LetterOrDigit c =
     ((48 \<le> c \<and> c \<le> 57) \<or> (65 \<le> c \<and> c \<le> 90) \<or> (97 \<le> c \<and> c \<le> 122)
      \<or> (192 \<le> c \<and> c \<le> 255 \<and> c \<noteq> 215 \<and> c \<noteq> 247))"

text \<open>
  The words of the specification for step B, position by position: the neighbours of
  position \<open>j\<close> (the boundary of the line counting as a space), whether the mark at
  \<open>j\<close> is a quotation boundary, the dialogue state before position \<open>j\<close> and the
  character emitted for position \<open>j\<close>.
\<close>

definition neighboursAlphanumeric :: "jstring \<Rightarrow> nat \<Rightarrow> bool" where
  "neighboursAlphanumeric line j =
     (latin1LetterOrDigit (if j = 0 then space else line ! (j - 1))
      \<and> latin1LetterOrDigit (if j + 1 < length line then line ! (j + 1) else space))"

definition isQuotationBoundary :: "jstring \<Rightarrow> nat \<Rightarrow> bool" where
  "isQuotationBoundary line j =
     ((line ! j = apostrophe \<or> line ! j = dquote) \<and> \<not> neighboursAlphanumeric line j)"

fun stateBefore :: "bool \<Rightarrow> jstring \<Rightarrow> nat \<Rightarrow> bool" where
  "stateBefore st line 0 = st"
| "stateBefore st line (Suc j) =
     (if line ! j = guilOpen then True
      else if line ! j = guilClose then False
      else if isQuotationBoundary line j then \<not> stateBefore st line j
      else stateBefore st line j)"

definition emitted :: "bool \<Rightarrow> jstring \<Rightarrow> nat \<Rightarrow> jchar" where
  "emitted st line j =
     (if isQuotationBoundary line j
      then (if stateBefore st line j then guilClose else guilOpen)
      else line ! j)"

section \<open>Markers next to guillemets\<close>

text \<open>\<open>adjacent a b line\<close>: somewhere in the line, \<open>a\<close> is immediately followed by
  \<open>b\<close>.\<close>

fun adjacent :: "jchar \<Rightarrow> jchar \<Rightarrow> jstring \<Rightarrow> bool" where
  "adjacent a b [] = False"
| "adjacent a b [x] = False"
| "adjacent a b (x # y # r) = ((x = a \<and> y = b) \<or> adjacent a b (y # r))"

text \<open>\<open>pairs a b line\<close>: the number of pairs of positions \<open>i < j\<close> with \<open>a\<close> at \<open>i\<close>
  and \<open>b\<close> at \<open>j\<close>.\<close>

fun pairs :: "jchar \<Rightarrow> jchar \<Rightarrow> jstring \<Rightarrow> nat" where
  "pairs a b [] = 0"
| "pairs a b (x # l) = (if x = a then count_list l b else 0) + pairs a b l"

text \<open>A marker is misplaced when an asterisk stands immediately before an opening
  guillemet, or a closing guillemet immediately before an asterisk.\<close>

definition misplaced :: "jstring \<Rightarrow> bool" where
  "misplaced line = (adjacent star guilOpen line \<or> adjacent guilClose star line)"

section \<open>The heading boundary in words\<close>

text \<open>
  The heading pattern in words. After the four hashes comes the text \<open>r\<close>. The title
  starts at the largest \<open>k\<close> such that the first \<open>k\<close> characters of \<open>r\<close> are whitespace
  (\<open>k\<close> at least 1) and the character at \<open>k\<close> exists and is not a line terminator; it
  runs up to the next line terminator or the end of the text. \<open>p\<close> is the number of
  code units matched before the hashes: none at the start of the text, one for a newline.
\<close>

definition titleSpec :: "nat \<Rightarrow> jstring \<Rightarrow> (jstring \<times> nat) option" where
  "titleSpec p r =
     (case filter (\<lambda>k. k < length r \<and> isDot (r ! k))
             (rev [1..<Suc (length (takeWhile isSpace r))]) of
        [] \<Rightarrow> None
      | k # ks \<Rightarrow> (let g = takeWhile isDot (drop k r) in Some (g, p + 4 + k + length g)))"

definition headingSpec :: "bool \<Rightarrow> jstring \<Rightarrow> (jstring \<times> nat) option" where
  "headingSpec atStart s =
     (if atStart \<and> take 4 s = js ''####'' then titleSpec 0 (drop 4 s)
      else if take 5 s = newline # js ''####'' then titleSpec 1 (drop 5 s)
      else None)"

text \<open>The first result among the candidates of a backtracking search.\<close>

fun firstSome :: "('a \<Rightarrow> 'b option) \<Rightarrow> 'a list \<Rightarrow> 'b option" where
  "firstSome f [] = None"
| "firstSome f (x # xs) = (case f x of Some r \<Rightarrow> Some r | None \<Rightarrow> firstSome f xs)"

text \<open>The title part of the pattern with the length counted from the end of the text,
  as the run of the pattern computes it.\<close>

definition titleAfter :: "nat \<Rightarrow> jstring \<Rightarrow> (jstring \<times> nat) option" where
  "titleAfter n0 r =
     (case filter (\<lambda>k. k < length r \<and> isDot (r ! k)) (rev [1..<Suc (length (takeWhile isSpace r))]) of
        [] \<Rightarrow> None
      | k # ks \<Rightarrow> Some (takeWhile isDot (drop k r), n0 - length (dropWhile isDot (drop k r))))"

section \<open>The quote scan as a recursion over the text\<close>

text \<open>
  The character after the current one, a space at the end of the line.
\<close>

definition nextOf :: "jstring \<Rightarrow> jchar" where
  "nextOf cs = (case cs of [] \<Rightarrow> space | n # ns \<Rightarrow> n)"

text \<open>
  The loop of \<open>quoteLoop\<close> written as a recursion over the remaining characters, with the
  previous character as an argument. It is a device of the proofs: \<open>quoteLoop_qscan\<close> shows
  that it computes what the loop of the source computes.
\<close>

fun qscan :: "bool \<Rightarrow> jchar \<Rightarrow> jstring \<Rightarrow> jstring \<times> bool" where
  "qscan st prev [] = ([], st)"
| "qscan st prev (c # cs) =
     (if c = guilOpen then (c # fst (qscan True c cs), snd (qscan True c cs))
      else if c = guilClose then (c # fst (qscan False c cs), snd (qscan False c cs))
      else if c = apostrophe \<or> c = dquote then
        (if isAlphanumeric prev \<and> isAlphanumeric (nextOf cs)
         then (c # fst (qscan st c cs), snd (qscan st c cs))
         else if st then (guilClose # fst (qscan False c cs), snd (qscan False c cs))
         else (guilOpen # fst (qscan True c cs), snd (qscan True c cs)))
      else (c # fst (qscan st c cs), snd (qscan st c cs)))"

text \<open>The four characters the scan looks at.\<close>

definition isMark :: "jchar \<Rightarrow> bool" where
  "isMark c = (c = apostrophe \<or> c = dquote \<or> c = guilOpen \<or> c = guilClose)"


text \<open>The text \<open>__CODE_BLOCK_<ds>__\<close> for a string of digits \<open>ds\<close>.\<close>

definition token :: "jstring \<Rightarrow> jstring" where
  "token ds = js ''__CODE_BLOCK_'' @ ds @ js ''__''"


section \<open>The dialogue state in words\<close>

text \<open>
  The dialogue state behind a line, entered with the state \<open>st\<close>: a line that is only a
  token of protected code is skipped and leaves the state as it is; any other line leaves
  the state that the scan of its characters (after the emphasis cleanup) ends in.
\<close>

definition stateAfterLine :: "bool \<Rightarrow> jstring \<Rightarrow> bool" where
  "stateAfterLine st line =
     (if isPlaceholderLine (trim line) then st
      else stateBefore st (fixEmphasisSpaces line) (length (fixEmphasisSpaces line)))"

text \<open>
  The state in which line \<open>i\<close> of a manuscript is entered: the state handed from line to
  line, starting with \<open>st\<close> before the first line.
\<close>

definition stateAtLine :: "bool \<Rightarrow> jstring list \<Rightarrow> nat \<Rightarrow> bool" where
  "stateAtLine st ls i = foldl stateAfterLine st (take i ls)"

text \<open>The line written for a line entered with the state \<open>st\<close>.\<close>

definition lineOutput :: "bool \<Rightarrow> jstring \<Rightarrow> jstring" where
  "lineOutput st line =
     (if isPlaceholderLine (trim line) then line
      else reorderMarkers
             (map (emitted st (fixEmphasisSpaces line)) [0..<length (fixEmphasisSpaces line)]))"

text \<open>The number of quotation boundaries before position \<open>j\<close> of a line.\<close>

definition boundariesBefore :: "jstring \<Rightarrow> nat \<Rightarrow> nat" where
  "boundariesBefore line j = length (filter (isQuotationBoundary line) [0..<j])"



section \<open>Evaluation\<close>

lemmas rx_simps = js_def litRule_def plusG_def alt_def eoi_def bol_def
  isSpace_def isDot_def isDigit_def isLineTerminator_def trim_def

lemmas fix_simps = fixEmphasisSpaces_def collapse_def emphBoth_def emphLead_def
  emphTrail_def listRegex_def maskList_def unmaskList_def

lemmas proc_simps = process_def extractRegex_def placeholder_def tokenRegex_def
  placeholderAt_def restoreRule_def restoreCode_def isPlaceholderLine_def
  isAlphanumeric_def quoteLoop.simps reorderMarkers_def parseInt_def decimal.simps

section \<open>The parser raises on a heading\<close>

text \<open>
  C3, the segmentation example of the specification: on
  \<open>"#### A\n\ntext1\n\n#### B\n\ntext2"\<close> the heading pattern matches at index 0, and
  \<open>getChapters\<close> raises a TypeError instead of returning the two chapters;
  \<open>reassemble\<close> of the two chapters gives the text the specification states.
\<close>

theorem getChapters_example_raises:
  "getChapters (js ''#### A\<newline>\<newline>text1\<newline>\<newline>#### B\<newline>\<newline>text2'') = Inl TypeError
   \<and> reassemble [\<lparr>title = js ''A'', content = js ''text1''\<rparr>,
                   \<lparr>title = js ''B'', content = js ''text2''\<rparr>]
       = js ''#### A\<newline>\<newline>text1\<newline>\<newline>\<newline>#### B\<newline>\<newline>text2''"
  by (simp add: getChapters_def reassemble_def chapterBlock_def headingRegex_def rx_simps)

text \<open>
  C9, no exceptions: \<open>getChapters\<close> raises a TypeError on the one-line manuscript
  \<open>"#### A"\<close>, so it does not return normally on every input.
\<close>

theorem getChapters_heading_raises:
  "getChapters (js ''#### A'') = Inl TypeError"
  by (simp add: getChapters_def headingRegex_def rx_simps)

section \<open>Code regions\<close>

text \<open>
  C1, code-region inviolability: the extraction pattern matches runs of backticks only,
  so the inline code span \<open>`"a"`\<close> is not protected, and its two straight quotes are
  rewritten to guillemets.
\<close>

theorem process_rewrites_code_span:
  "process (js ''`\"a\"`'') = [backtick, guilOpen] @ js ''a'' @ [guilClose, backtick]"
  by (simp add: proc_simps fix_simps rx_simps)

section \<open>The quote scan\<close>

lemma quoteLoop_step:
  "j < length line \<Longrightarrow> quoteLoop line j st acc =
     (let c = line ! j in
         if c = guilOpen then quoteLoop line (j + 1) True (acc @ [c])
         else if c = guilClose then quoteLoop line (j + 1) False (acc @ [c])
         else if c = apostrophe \<or> c = dquote then
           (let prev = (if j > 0 then line ! (j - 1) else space);
                next = (if j < length line - 1 then line ! (j + 1) else space)
            in if isAlphanumeric prev \<and> isAlphanumeric next
               then quoteLoop line (j + 1) st (acc @ [c])
               else if st
                    then quoteLoop line (j + 1) False (acc @ [guilClose])
                    else quoteLoop line (j + 1) True (acc @ [guilOpen]))
         else quoteLoop line (j + 1) st (acc @ [c]))"
  apply (rule trans[OF quoteLoop.simps])
  apply (simp only: if_True)
  done

lemma quoteLoop_done: "\<not> j < length line \<Longrightarrow> quoteLoop line j st acc = (acc, st)"
  apply (rule trans[OF quoteLoop.simps])
  apply (simp only: if_False)
  done

lemma isAlphanumeric_class: "isAlphanumeric c = latin1LetterOrDigit c"
  unfolding isAlphanumeric_def latin1LetterOrDigit_def by arith

lemma quoteLoop_from:
  "j \<le> length line \<Longrightarrow>
   quoteLoop line j (stateBefore st line j) acc =
     (acc @ map (emitted st line) [j..<length line], stateBefore st line (length line))"
proof (induction "length line - j" arbitrary: j acc)
  case 0
  then have "j = length line" by simp
  then show ?case by (simp add: quoteLoop_done)
next
  case (Suc n)
  have lt: "j < length line" using Suc.hyps(2) by simp
  have n: "n = length line - Suc j" using Suc.hyps(2) by simp
  have le: "Suc j \<le> length line" using lt by simp
  have ih: "\<And>acc'. quoteLoop line (Suc j) (stateBefore st line (Suc j)) acc' =
     (acc' @ map (emitted st line) [Suc j..<length line], stateBefore st line (length line))"
    using Suc.hyps(1)[OF n le] .
  have upt: "[j..<length line] = j # [Suc j..<length line]"
    using lt by (simp add: upt_conv_Cons)
  have nx: "(j < length line - 1) = (j + 1 < length line)" by auto
  have na: "neighboursAlphanumeric line j =
     (isAlphanumeric (if 0 < j then line ! (j - 1) else space)
      \<and> isAlphanumeric (if j < length line - 1 then line ! (j + 1) else space))"
  proof -
    have a: "(if j = 0 then space else line ! (j - 1)) = (if 0 < j then line ! (j - 1) else space)"
      by simp
    have b: "(if j + 1 < length line then line ! (j + 1) else space)
           = (if j < length line - 1 then line ! (j + 1) else space)"
      using nx by simp
    show ?thesis unfolding neighboursAlphanumeric_def a b isAlphanumeric_class ..
  qed
  have unf: "quoteLoop line j (stateBefore st line j) acc =
     (if line ! j = guilOpen then quoteLoop line (Suc j) True (acc @ [line ! j])
         else if line ! j = guilClose then quoteLoop line (Suc j) False (acc @ [line ! j])
         else if line ! j = apostrophe \<or> line ! j = dquote then
           (if neighboursAlphanumeric line j
               then quoteLoop line (Suc j) (stateBefore st line j) (acc @ [line ! j])
               else if stateBefore st line j
                    then quoteLoop line (Suc j) False (acc @ [guilClose])
                    else quoteLoop line (Suc j) True (acc @ [guilOpen]))
         else quoteLoop line (Suc j) (stateBefore st line j) (acc @ [line ! j]))"
    unfolding na
    by (rule trans[OF quoteLoop_step[OF lt]]) (simp only: Let_def Suc_eq_plus1)
  consider (op) "line ! j = guilOpen" | (cl) "line ! j = guilClose"
    | (inner) "line ! j = apostrophe \<or> line ! j = dquote" "neighboursAlphanumeric line j"
    | (bnd) "line ! j = apostrophe \<or> line ! j = dquote" "\<not> neighboursAlphanumeric line j"
    | (other) "line ! j \<noteq> guilOpen" "line ! j \<noteq> guilClose"
        "line ! j \<noteq> apostrophe" "line ! j \<noteq> dquote"
    by blast
  then show ?case
  proof cases
    case op
    have s: "stateBefore st line (Suc j) = True" using op by simp
    have e: "emitted st line j = line ! j"
      using op by (simp add: emitted_def isQuotationBoundary_def)
    show ?thesis
      using ih[of "acc @ [line ! j]"] op by (simp add: unf upt s e del: stateBefore.simps)
  next
    case cl
    have s: "stateBefore st line (Suc j) = False" using cl by simp
    have e: "emitted st line j = line ! j"
      using cl by (simp add: emitted_def isQuotationBoundary_def)
    show ?thesis
      using ih[of "acc @ [line ! j]"] cl by (simp add: unf upt s e del: stateBefore.simps)
  next
    case inner
    have q: "\<not> isQuotationBoundary line j" using inner by (simp add: isQuotationBoundary_def)
    have g: "line ! j \<noteq> guilOpen" "line ! j \<noteq> guilClose" using inner(1) by auto
    have s: "stateBefore st line (Suc j) = stateBefore st line j" using q g by simp
    have e: "emitted st line j = line ! j" using q by (simp add: emitted_def)
    show ?thesis
      using ih[of "acc @ [line ! j]"] inner g by (simp add: unf upt s e del: stateBefore.simps)
  next
    case bnd
    have q: "isQuotationBoundary line j" using bnd by (simp add: isQuotationBoundary_def)
    have g: "line ! j \<noteq> guilOpen" "line ! j \<noteq> guilClose" using bnd(1) by auto
    have s: "stateBefore st line (Suc j) = (\<not> stateBefore st line j)" using q g by simp
    have e: "emitted st line j = (if stateBefore st line j then guilClose else guilOpen)"
      using q by (simp add: emitted_def)
    show ?thesis
    proof (cases "stateBefore st line j")
      case True
      then show ?thesis
        unfolding unf using ih[of "acc @ [guilClose]"] bnd g
        by (simp add: upt s e del: stateBefore.simps)
    next
      case False
      then show ?thesis
        unfolding unf using ih[of "acc @ [guilOpen]"] bnd g
        by (simp add: upt s e del: stateBefore.simps)
    qed
  next
    case other
    have q: "\<not> isQuotationBoundary line j" using other by (simp add: isQuotationBoundary_def)
    have s: "stateBefore st line (Suc j) = stateBefore st line j" using q other by simp
    have e: "emitted st line j = line ! j" using q by (simp add: emitted_def)
    show ?thesis
      using ih[of "acc @ [line ! j]"] other by (simp add: unf upt s e del: stateBefore.simps)
  qed
qed

lemma quoteLoop_spec:
  "quoteLoop line 0 st [] =
     (map (emitted st line) [0..<length line], stateBefore st line (length line))"
  using quoteLoop_from[of 0 line st "[]"] by simp

text \<open>
  Claim C5, quote classification, amended in the class of characters. The scan of a line
  emits, position by position, what the specification describes, and ends in the state it
  describes: a straight apostrophe or double quote whose two neighbours (the boundary of
  the line counting as a space) are both an ASCII letter, an ASCII digit or a Latin-1
  letter from U+00C0 to U+00FF stays; any other one becomes a closing guillemet when the
  dialogue is open and an opening one when it is closed, and flips the state; a guillemet
  stays and forces the state. The test of the code is this class and no other.
  \<open>l'arbre\<close> keeps its apostrophe, so does \<open>l'\<close> followed by U+00E9, \<open>t\<close>, U+00E9, and
  \<open>'tis\<close> gains an opening guillemet.
\<close>

theorem quote_classification:
  "quoteLoop line 0 st [] =
     (map (emitted st line) [0..<length line], stateBefore st line (length line))
   \<and> isAlphanumeric c = latin1LetterOrDigit c
   \<and> process (js ''l'arbre'') = js ''l'arbre''
   \<and> process (js ''l'' @ [apostrophe, 233] @ js ''t'' @ [233])
       = js ''l'' @ [apostrophe, 233] @ js ''t'' @ [233]
   \<and> process (js '''tis'') = guilOpen # js ''tis''"
proof -
  have a: "process (js ''l'arbre'') = js ''l'arbre''"
    by (simp add: proc_simps fix_simps rx_simps)
  have b: "process (js '''tis'') = guilOpen # js ''tis''"
    by (simp add: proc_simps fix_simps rx_simps)
  have c: "process (js ''l'' @ [apostrophe, 233] @ js ''t'' @ [233])
       = js ''l'' @ [apostrophe, 233] @ js ''t'' @ [233]"
    by (simp add: proc_simps fix_simps rx_simps)
  show ?thesis using quoteLoop_spec isAlphanumeric_class a b c by blast
qed

text \<open>
  Claim C5 as stated fails for the French letters outside Latin-1. In \<open>l'\<close> followed by
  U+0153 (the ligature oe) and \<open>uvre\<close>, the apostrophe stands between two Latin letters,
  but U+0153 is not in the class of the code, and the apostrophe becomes an opening
  guillemet. The same holds before U+0178 (Y with diaeresis).
\<close>

theorem quote_between_letters_replaced:
  "process (js ''l'' @ [apostrophe, 339] @ js ''uvre'') = js ''l'' @ [guilOpen, 339] @ js ''uvre''
   \<and> process (js ''l'' @ [apostrophe, 376]) = js ''l'' @ [guilOpen, 376]
   \<and> \<not> isAlphanumeric 339 \<and> \<not> isAlphanumeric 376"
  by (simp add: proc_simps fix_simps rx_simps)

section \<open>Emphasis spacing\<close>





lemma replaceAll_prefix:
  "(\<And>c r. c \<in> set pre \<Longrightarrow> m (c # r) = None) \<Longrightarrow> replaceAll m (pre @ s) = pre @ replaceAll m s"
  by (induction pre) auto

lemma emphBoth_star: "c \<noteq> star \<Longrightarrow> emphBoth (star # m) (c # r) = None"
  by (simp add: emphBoth_def)
lemma emphLead_star: "c \<noteq> star \<Longrightarrow> emphLead (star # m) (c # r) = None"
  by (simp add: emphLead_def)
lemma emphTrail_star: "c \<noteq> star \<Longrightarrow> emphTrail (star # m) (c # r) = None"
  by (simp add: emphTrail_def)

lemma collapse_prefix:
  assumes "star \<notin> set pre"
  shows "collapse (star # m) (pre @ s) = pre @ collapse (star # m) s"
proof -
  have n: "\<And>c. c \<in> set pre \<Longrightarrow> c \<noteq> star" using assms by auto
  show ?thesis
    unfolding collapse_def
    by (simp add: replaceAll_prefix emphBoth_star emphLead_star emphTrail_star n)
qed











section \<open>reorderMarkers and its fixed points\<close>

lemma litRule_iff:
  "litRule pat rep s = (if take (length pat) s = pat then Some (rep, length pat) else None)"
proof -
  have *: "\<And>n. lit pat s (\<lambda>rest. Some (rep, n - length rest))
        = (if take (length pat) s = pat then Some (rep, n - (length s - length pat)) else None)"
  proof (induction pat arbitrary: s)
    case Nil
    then show ?case by simp
  next
    case (Cons p ps)
    show ?case by (cases s) (auto simp: Cons.IH)
  qed
  have len: "length pat \<le> length s" if "take (length pat) s = pat"
  proof -
    have "length (take (length pat) s) = length pat" using that by simp
    then show ?thesis by simp
  qed
  show ?thesis
    unfolding litRule_def using *[of "length s"] len by auto
qed

lemma replaceAll_lit_match:
  assumes "pat \<noteq> []"
  shows "replaceAll (litRule pat rep) (pat @ rest) = rep @ replaceAll (litRule pat rep) rest"
proof -
  obtain p ps where p: "pat = p # ps" using assms by (cases pat) auto
  have "litRule pat rep (pat @ rest) = Some (rep, length pat)" by (simp add: litRule_iff)
  then show ?thesis using p by simp
qed

lemma replaceAll_lit_nomatch:
  assumes "take (length pat) (c # cs) \<noteq> pat"
  shows "replaceAll (litRule pat rep) (c # cs) = c # replaceAll (litRule pat rep) cs"
  using assms by (simp add: litRule_iff)

lemma replaceAll_lit_nil:
  assumes "pat \<noteq> []"
  shows "replaceAll (litRule pat rep) [] = []"
  using assms by (simp add: litRule_iff)

lemma replaceAll_lit_cases:
  assumes "pat \<noteq> []"
  shows "(l = [] \<and> replaceAll (litRule pat rep) l = [])
   \<or> (\<exists>rest. l = pat @ rest
         \<and> replaceAll (litRule pat rep) l = rep @ replaceAll (litRule pat rep) rest)
   \<or> (\<exists>c cs. l = c # cs \<and> take (length pat) l \<noteq> pat
         \<and> replaceAll (litRule pat rep) l = c # replaceAll (litRule pat rep) cs)"
proof (cases l)
  case Nil
  then show ?thesis using replaceAll_lit_nil[OF assms] by simp
next
  case (Cons c cs)
  show ?thesis
  proof (cases "take (length pat) l = pat")
    case True
    then have "l = pat @ drop (length pat) l" by (metis append_take_drop_id)
    then show ?thesis using replaceAll_lit_match[OF assms] by metis
  next
    case False
    then show ?thesis using replaceAll_lit_nomatch Cons by metis
  qed
qed

lemma pairs_append:
  "pairs a b (xs @ ys) = pairs a b xs + count_list xs a * count_list ys b + pairs a b ys"
  by (induction xs) (auto simp: algebra_simps)

lemma count_list_append': "count_list (xs @ ys) c = count_list xs c + count_list ys c"
  by (induction xs) auto

lemma replaceAll_lit_count:
  assumes "pat \<noteq> []" and "count_list rep c = count_list pat c"
  shows "count_list (replaceAll (litRule pat rep) l) c = count_list l c"
proof (induction "length l" arbitrary: l rule: less_induct)
  case less
  let ?R = "replaceAll (litRule pat rep)"
  consider (nil) "l = []" "?R l = []"
    | (match) rest where "l = pat @ rest" "?R l = rep @ ?R rest"
    | (skip) c' cs where "l = c' # cs" "take (length pat) l \<noteq> pat" "?R l = c' # ?R cs"
    using replaceAll_lit_cases[OF assms(1), of l rep] by blast
  then show ?case
  proof cases
    case nil
    then show ?thesis by simp
  next
    case (match rest)
    have "length rest < length l" using match(1) assms(1) by simp
    then show ?thesis using less match assms(2) by (simp add: count_list_append')
  next
    case (skip c' cs)
    have "length cs < length l" using skip(1) by simp
    then show ?thesis using less skip by simp
  qed
qed

lemma replaceAll_lit_pairs_le:
  assumes "pat \<noteq> []" and "count_list rep a = count_list pat a"
    and "count_list rep b = count_list pat b" and "pairs a b rep \<le> pairs a b pat"
  shows "pairs a b (replaceAll (litRule pat rep) l) \<le> pairs a b l"
proof (induction "length l" arbitrary: l rule: less_induct)
  case less
  let ?R = "replaceAll (litRule pat rep)"
  consider (nil) "l = []" "?R l = []"
    | (match) rest where "l = pat @ rest" "?R l = rep @ ?R rest"
    | (skip) c' cs where "l = c' # cs" "take (length pat) l \<noteq> pat" "?R l = c' # ?R cs"
    using replaceAll_lit_cases[OF assms(1), of l rep] by blast
  then show ?case
  proof cases
    case nil
    then show ?thesis by simp
  next
    case (match rest)
    have "length rest < length l" using match(1) assms(1) by simp
    then have ih: "pairs a b (replaceAll (litRule pat rep) rest) \<le> pairs a b rest" using less by simp
    have cb: "count_list (replaceAll (litRule pat rep) rest) b = count_list rest b"
      using replaceAll_lit_count[OF assms(1) assms(3)] .
    show ?thesis using ih cb assms(2,4) match by (simp add: pairs_append)
  next
    case (skip c' cs)
    have "length cs < length l" using skip(1) by simp
    then have ih: "pairs a b (replaceAll (litRule pat rep) cs) \<le> pairs a b cs" using less by simp
    have cb: "count_list (replaceAll (litRule pat rep) cs) b = count_list cs b"
      using replaceAll_lit_count[OF assms(1) assms(3)] .
    show ?thesis using ih cb skip by simp
  qed
qed

lemma replaceAll_lit_pairs_less:
  assumes "pat \<noteq> []" and "count_list rep a = count_list pat a"
    and "count_list rep b = count_list pat b" and "pairs a b rep < pairs a b pat"
  shows "replaceAll (litRule pat rep) l = l \<or> pairs a b (replaceAll (litRule pat rep) l) < pairs a b l"
proof (induction "length l" arbitrary: l rule: less_induct)
  case less
  have le: "\<And>l. pairs a b (replaceAll (litRule pat rep) l) \<le> pairs a b l"
    using replaceAll_lit_pairs_le[OF assms(1,2,3)] assms(4) by simp
  have cb: "\<And>l. count_list (replaceAll (litRule pat rep) l) b = count_list l b"
    using replaceAll_lit_count[OF assms(1) assms(3)] .
  let ?R = "replaceAll (litRule pat rep)"
  consider (nil) "l = []" "?R l = []"
    | (match) rest where "l = pat @ rest" "?R l = rep @ ?R rest"
    | (skip) c' cs where "l = c' # cs" "take (length pat) l \<noteq> pat" "?R l = c' # ?R cs"
    using replaceAll_lit_cases[OF assms(1), of l rep] by blast
  then show ?case
  proof cases
    case nil
    then show ?thesis by simp
  next
    case (match rest)
    show ?thesis using le[of rest] cb[of rest] assms(2,4) match by (simp add: pairs_append)
  next
    case (skip c' cs)
    have "length cs < length l" using skip(1) by simp
    then have ih: "replaceAll (litRule pat rep) cs = cs
        \<or> pairs a b (replaceAll (litRule pat rep) cs) < pairs a b cs" using less by simp
    show ?thesis using ih cb[of cs] skip by auto
  qed
qed


lemma adjacent_Cons: "adjacent a b cs \<Longrightarrow> adjacent a b (c # cs)"
  by (cases cs) auto

lemma adjacent_append: "adjacent a b xs \<Longrightarrow> adjacent a b (xs @ ys)"
  by (induction a b xs rule: adjacent.induct) auto

lemma replaceAll_lit_id:
  assumes "adjacent a b pat"
  shows "\<not> adjacent a b l \<Longrightarrow> replaceAll (litRule pat rep) l = l"
proof (induction l)
  case Nil
  have "pat \<noteq> []" using assms by auto
  then show ?case by (rule replaceAll_lit_nil)
next
  case (Cons c cs)
  have nm: "take (length pat) (c # cs) \<noteq> pat"
  proof
    assume "take (length pat) (c # cs) = pat"
    then have "c # cs = pat @ drop (length pat) (c # cs)" by (metis append_take_drop_id)
    then have "adjacent a b (c # cs)" using adjacent_append[OF assms] by metis
    then show False using Cons.prems by simp
  qed
  have "\<not> adjacent a b cs" using Cons.prems adjacent_Cons by blast
  then show ?case using Cons.IH replaceAll_lit_nomatch[OF nm] by simp
qed

lemma replaceAll_swap_changes:
  "adjacent a b l \<Longrightarrow> a \<noteq> b \<Longrightarrow> replaceAll (litRule [a, b] [b, a]) l \<noteq> l"
proof (induction a b l rule: adjacent.induct)
  case (1 a b)
  then show ?case by simp
next
  case (2 a b x)
  then show ?case by simp
next
  case (3 a b x y r)
  show ?case
  proof (cases "x = a \<and> y = b")
    case True
    then show ?thesis using replaceAll_lit_match[of "[a, b]" "[b, a]" r] 3(3) by auto
  next
    case False
    then have adj: "adjacent a b (y # r)" using 3(2) by auto
    have nm: "take (length [a, b]) (x # y # r) \<noteq> [a, b]" using False by auto
    show ?thesis using replaceAll_lit_nomatch[OF nm] 3(1)[OF adj 3(3)] by simp
  qed
qed

lemma reorderMarkers_id:
  assumes "\<not> misplaced l"
  shows "reorderMarkers l = l"
proof -
  have o: "\<not> adjacent star guilOpen l" and c: "\<not> adjacent guilClose star l"
    using assms by (auto simp: misplaced_def)
  have o3: "adjacent star guilOpen [star, star, star, guilOpen]" by simp
  have o2: "adjacent star guilOpen [star, star, guilOpen]" by simp
  have o1: "adjacent star guilOpen [star, guilOpen]" by simp
  have c3: "adjacent guilClose star [guilClose, star, star, star]" by simp
  have c2: "adjacent guilClose star [guilClose, star, star]" by simp
  have c1: "adjacent guilClose star [guilClose, star]" by simp
  show ?thesis
    unfolding reorderMarkers_def Let_def
    by (simp only: replaceAll_lit_id[OF o3 o] replaceAll_lit_id[OF o2 o] replaceAll_lit_id[OF o1 o]
        replaceAll_lit_id[OF c3 c] replaceAll_lit_id[OF c2 c] replaceAll_lit_id[OF c1 c])
qed

lemma reorderMarkers_changes:
  assumes "misplaced l"
  shows "reorderMarkers l \<noteq> l"
proof
  assume eq: "reorderMarkers l = l"
  let ?f1 = "replaceAll (litRule [star, star, star, guilOpen] [guilOpen, star, star, star])"
  let ?f2 = "replaceAll (litRule [star, star, guilOpen] [guilOpen, star, star])"
  let ?f3 = "replaceAll (litRule [star, guilOpen] [guilOpen, star])"
  let ?g1 = "replaceAll (litRule [guilClose, star, star, star] [star, star, star, guilClose])"
  let ?g2 = "replaceAll (litRule [guilClose, star, star] [star, star, guilClose])"
  let ?g3 = "replaceAll (litRule [guilClose, star] [star, guilClose])"
  let ?A = "pairs star guilOpen" and ?B = "pairs guilClose star"
  have r: "?g3 (?g2 (?g1 (?f3 (?f2 (?f1 l))))) = l"
    using eq unfolding reorderMarkers_def Let_def .
  have f1A: "\<And>x. ?f1 x = x \<or> ?A (?f1 x) < ?A x" by (rule replaceAll_lit_pairs_less) simp_all
  have f2A: "\<And>x. ?f2 x = x \<or> ?A (?f2 x) < ?A x" by (rule replaceAll_lit_pairs_less) simp_all
  have f3A: "\<And>x. ?f3 x = x \<or> ?A (?f3 x) < ?A x" by (rule replaceAll_lit_pairs_less) simp_all
  have g1A: "\<And>x. ?A (?g1 x) \<le> ?A x" by (rule replaceAll_lit_pairs_le) simp_all
  have g2A: "\<And>x. ?A (?g2 x) \<le> ?A x" by (rule replaceAll_lit_pairs_le) simp_all
  have g3A: "\<And>x. ?A (?g3 x) \<le> ?A x" by (rule replaceAll_lit_pairs_le) simp_all
  have g1B: "\<And>x. ?g1 x = x \<or> ?B (?g1 x) < ?B x" by (rule replaceAll_lit_pairs_less) simp_all
  have g2B: "\<And>x. ?g2 x = x \<or> ?B (?g2 x) < ?B x" by (rule replaceAll_lit_pairs_less) simp_all
  have g3B: "\<And>x. ?g3 x = x \<or> ?B (?g3 x) < ?B x" by (rule replaceAll_lit_pairs_less) simp_all
  have chainA: "?A l \<le> ?A (?f3 (?f2 (?f1 l)))"
    using g1A[of "?f3 (?f2 (?f1 l))"] g2A[of "?g1 (?f3 (?f2 (?f1 l)))"]
      g3A[of "?g2 (?g1 (?f3 (?f2 (?f1 l))))"] r by simp
  have e1: "?f1 l = l"
    using f1A[of l] f2A[of "?f1 l"] f3A[of "?f2 (?f1 l)"] chainA by force
  have e2: "?f2 l = l"
    using f2A[of l] f3A[of "?f2 l"] chainA e1 by force
  have e3: "?f3 l = l"
    using f3A[of l] chainA e1 e2 by force
  have r': "?g3 (?g2 (?g1 l)) = l" using r e1 e2 e3 by simp
  have h1: "?g1 l = l"
    using g1B[of l] g2B[of "?g1 l"] g3B[of "?g2 (?g1 l)"] r' by force
  have h2: "?g2 l = l"
    using g2B[of l] g3B[of "?g2 l"] r' h1 by force
  have h3: "?g3 l = l" using r' h1 h2 by simp
  have no: "\<not> adjacent star guilOpen l"
    using replaceAll_swap_changes[of star guilOpen l] e3 by auto
  have nc: "\<not> adjacent guilClose star l"
    using replaceAll_swap_changes[of guilClose star l] h3 by auto
  show False using assms no nc by (simp add: misplaced_def)
qed

text \<open>
  The fixed points of \<open>reorderMarkers\<close>: a line is left as it is exactly when no marker
  is misplaced in it.
\<close>

lemma reorderMarkers_fixed_points: "(reorderMarkers l = l) = (\<not> misplaced l)"
  using reorderMarkers_id reorderMarkers_changes by blast

text \<open>
  Claim C8, idempotence of the Marker Reorderer, fails in the code. Each of the six
  replacements is one pass from left to right, and a pass does not look again at what it
  has written. On the line made of an asterisk and two opening guillemets the pass of
  width 1 moves the asterisk behind the first guillemet only: the result is guillemet,
  asterisk, guillemet, in which the asterisk still stands immediately before an opening
  guillemet. A second application moves it again, to guillemet, guillemet, asterisk, which
  is a fixed point. The same happens through \<open>process\<close>, whose result on this line is the
  result of the first application.
\<close>

theorem reorderMarkers_not_idempotent:
  "reorderMarkers [star, guilOpen, guilOpen] = [guilOpen, star, guilOpen]
   \<and> adjacent star guilOpen (reorderMarkers [star, guilOpen, guilOpen])
   \<and> reorderMarkers (reorderMarkers [star, guilOpen, guilOpen]) = [guilOpen, guilOpen, star]
   \<and> reorderMarkers (reorderMarkers [star, guilOpen, guilOpen])
       \<noteq> reorderMarkers [star, guilOpen, guilOpen]
   \<and> process [star, guilOpen, guilOpen] = [guilOpen, star, guilOpen]"
  by (simp add: proc_simps fix_simps rx_simps)


section \<open>The heading boundary\<close>

lemma firstSome_append:
  "firstSome f (xs @ ys) = (case firstSome f xs of Some r \<Rightarrow> Some r | None \<Rightarrow> firstSome f ys)"
  by (induction xs) (auto split: option.splits)

lemma firstSome_filter:
  "firstSome f xs = (case filter (\<lambda>x. f x \<noteq> None) xs of [] \<Rightarrow> None | x # _ \<Rightarrow> f x)"
  by (induction xs) (auto split: option.splits)

lemma firstSome_map: "firstSome f (map h xs) = firstSome (f \<circ> h) xs"
  by (induction xs) (auto split: option.splits)

lemma starG_firstSome:
  "starG p s k = firstSome k (map (\<lambda>i. drop i s) (rev [0..<Suc (length (takeWhile p s))]))"
proof (induction s)
  case Nil
  then show ?case by (simp split: option.splits)
next
  case (Cons c cs)
  show ?case
  proof (cases "p c")
    case False
    then show ?thesis by (simp split: option.splits)
  next
    case True
    let ?n = "length (takeWhile p cs)"
    have sh: "map (\<lambda>i. drop i (c # cs)) (rev [0..<Suc (Suc ?n)])
            = map (\<lambda>i. drop i cs) (rev [0..<Suc ?n]) @ [c # cs]"
    proof -
      have "[0..<Suc (Suc ?n)] = 0 # map Suc [0..<Suc ?n]"
        by (metis map_Suc_upt upt_conv_Cons zero_less_Suc)
      then show ?thesis by (simp add: rev_map comp_def del: upt_Suc)
    qed
    have tw: "length (takeWhile p (c # cs)) = Suc ?n" using True by simp
    have "starG p (c # cs) k = (case starG p cs k of Some r \<Rightarrow> Some r | None \<Rightarrow> k (c # cs))"
      using True by simp
    also have "\<dots> = (case firstSome k (map (\<lambda>i. drop i cs) (rev [0..<Suc ?n])) of
                        Some r \<Rightarrow> Some r | None \<Rightarrow> k (c # cs))"
      by (simp only: Cons.IH)
    also have "\<dots> = firstSome k (map (\<lambda>i. drop i cs) (rev [0..<Suc ?n]) @ [c # cs])"
      by (simp only: firstSome_append) (simp split: option.splits del: upt_Suc)
    also have "\<dots> = firstSome k (map (\<lambda>i. drop i (c # cs)) (rev [0..<Suc (length (takeWhile p (c # cs)))]))"
      by (simp only: tw sh)
    finally show ?thesis .
  qed
qed


lemma lit_iff:
  "lit pat s k = (if take (length pat) s = pat then k (drop (length pat) s) else None)"
proof (induction pat arbitrary: s)
  case Nil
  then show ?case by simp
next
  case (Cons p ps)
  show ?case by (cases s) (auto simp: Cons.IH)
qed

lemma starG_always:
  "(\<And>t. k t \<noteq> None) \<Longrightarrow> starG p s k = k (dropWhile p s)"
proof (induction s)
  case Nil
  then show ?case by simp
next
  case (Cons c cs)
  show ?case
  proof (cases "p c")
    case True
    obtain r where r: "k (dropWhile p cs) = Some r" using Cons.prems[of "dropWhile p cs"] by auto
    then show ?thesis using True Cons.IH Cons.prems by simp
  next
    case False
    then show ?thesis by simp
  qed
qed

lemma take_len_takeWhile:
  "take (length xs - length (dropWhile p xs)) xs = takeWhile p xs"
proof -
  have "length (takeWhile p xs) + length (dropWhile p xs) = length xs"
    by (metis length_append takeWhile_dropWhile_id)
  then have "length xs - length (dropWhile p xs) = length (takeWhile p xs)" by arith
  then show ?thesis using takeWhile_eq_take[of p xs] by simp
qed

lemma title_part:
  "plusG isDot s3 (\<lambda>s4. Some (take (length s3 - length s4) s3, n0 - length s4))
   = (if s3 \<noteq> [] \<and> isDot (hd s3)
      then Some (takeWhile isDot s3, n0 - length (dropWhile isDot s3)) else None)"
proof (cases s3)
  case Nil
  then show ?thesis by (simp add: plusG_def)
next
  case (Cons c cs)
  show ?thesis
  proof (cases "isDot c")
    case False
    then show ?thesis using Cons by (simp add: plusG_def)
  next
    case True
    have "plusG isDot s3 (\<lambda>s4. Some (take (length s3 - length s4) s3, n0 - length s4))
        = starG isDot cs (\<lambda>s4. Some (take (length s3 - length s4) s3, n0 - length s4))"
      using True Cons by (simp add: plusG_def)
    also have "\<dots> = Some (take (length s3 - length (dropWhile isDot cs)) s3,
                         n0 - length (dropWhile isDot cs))"
      by (rule starG_always) simp
    also have "\<dots> = Some (takeWhile isDot s3, n0 - length (dropWhile isDot s3))"
      using take_len_takeWhile[of s3 isDot] True Cons by simp
    finally show ?thesis using True Cons by simp
  qed
qed

lemma spaces_then_title:
  "plusG isSpace r (\<lambda>s3. plusG isDot s3 (\<lambda>s4. Some (take (length s3 - length s4) s3, n0 - length s4)))
   = titleAfter n0 r"
proof (cases r)
  case Nil
  then show ?thesis by (simp add: plusG_def titleAfter_def)
next
  case (Cons c cs)
  show ?thesis
  proof (cases "isSpace c")
    case False
    then show ?thesis using Cons by (simp add: plusG_def titleAfter_def)
  next
    case True
    let ?w = "length (takeWhile isSpace cs)"
    let ?K = "\<lambda>s3. if s3 \<noteq> [] \<and> isDot (hd s3)
      then Some (takeWhile isDot s3, n0 - length (dropWhile isDot s3)) else None"
    let ?f = "\<lambda>i. ?K (drop i cs)"
    have nn: "\<And>i. (?f i \<noteq> None) = (Suc i < length r \<and> isDot (r ! Suc i))"
      using Cons by (auto simp: hd_drop_conv_nth)
    have idx: "rev [1..<Suc (length (takeWhile isSpace r))] = map Suc (rev [0..<Suc ?w])"
    proof -
      have "[Suc 0..<Suc (Suc ?w)] = map Suc [0..<Suc ?w]" by (simp only: map_Suc_upt)
      then show ?thesis using True Cons by (simp add: rev_map del: upt_Suc)
    qed
    have "plusG isSpace r (\<lambda>s3. plusG isDot s3 (\<lambda>s4. Some (take (length s3 - length s4) s3, n0 - length s4)))
        = starG isSpace cs ?K"
      unfolding title_part using True Cons by (simp add: plusG_def)
    also have "\<dots> = firstSome ?f (rev [0..<Suc ?w])"
      by (simp only: starG_firstSome firstSome_map comp_def)
    also have "\<dots> = (case filter (\<lambda>i. Suc i < length r \<and> isDot (r ! Suc i)) (rev [0..<Suc ?w]) of
                        [] \<Rightarrow> None | i # _ \<Rightarrow> ?f i)"
      by (simp only: firstSome_filter nn)
    also have "\<dots> = (case filter (\<lambda>i. Suc i < length r \<and> isDot (r ! Suc i)) (rev [0..<Suc ?w]) of
                        [] \<Rightarrow> None
                      | i # _ \<Rightarrow> Some (takeWhile isDot (drop (Suc i) r),
                                       n0 - length (dropWhile isDot (drop (Suc i) r))))"
    proof -
      have hd: "\<And>i is. filter (\<lambda>i. Suc i < length r \<and> isDot (r ! Suc i)) (rev [0..<Suc ?w]) = i # is
            \<Longrightarrow> ?f i = Some (takeWhile isDot (drop (Suc i) r),
                                       n0 - length (dropWhile isDot (drop (Suc i) r)))"
      proof -
        fix i "is"
        assume "filter (\<lambda>i. Suc i < length r \<and> isDot (r ! Suc i)) (rev [0..<Suc ?w]) = i # is"
        then have "Suc i < length r \<and> isDot (r ! Suc i)"
          by (metis (mono_tags, lifting) Cons_eq_filterD)
        then have "?f i \<noteq> None" using nn by blast
        then show "?f i = Some (takeWhile isDot (drop (Suc i) r),
                                       n0 - length (dropWhile isDot (drop (Suc i) r)))"
          using Cons by (simp split: if_splits)
      qed
      show ?thesis using hd by (simp split: list.splits del: upt_Suc)
    qed
    also have "\<dots> = titleAfter n0 r"
      unfolding titleAfter_def idx filter_map comp_def
      by (simp split: list.splits del: upt_Suc)
    finally show ?thesis .
  qed
qed


lemma titleAfter_length:
  assumes "n0 = p + 4 + length r"
  shows "titleAfter n0 r = titleSpec p r"
proof -
  have a: "n0 - length (dropWhile isDot (drop k r)) = p + 4 + k + length (takeWhile isDot (drop k r))"
    if "k < length r" for k
  proof -
    have "length (takeWhile isDot (drop k r)) + length (dropWhile isDot (drop k r)) = length r - k"
      by (metis length_append length_drop takeWhile_dropWhile_id)
    then show ?thesis using that assms by arith
  qed
  have hd: "k < length r"
    if "filter (\<lambda>k. k < length r \<and> isDot (r ! k)) (rev [1..<Suc (length (takeWhile isSpace r))]) = k # ks"
    for k ks
    using that by (metis (mono_tags, lifting) Cons_eq_filterD)
  show ?thesis
  proof (cases "filter (\<lambda>k. k < length r \<and> isDot (r ! k)) (rev [1..<Suc (length (takeWhile isSpace r))])")
    case Nil
    then show ?thesis unfolding titleAfter_def titleSpec_def by (simp only: list.case)
  next
    case (Cons k ks)
    show ?thesis
      unfolding titleAfter_def titleSpec_def Let_def Cons
      by (simp only: list.case a[OF hd[OF Cons]])
  qed
qed

lemma hashes_then_title:
  "lit (js ''####'') s1 (\<lambda>s2. plusG isSpace s2 (\<lambda>s3. plusG isDot s3 (\<lambda>s4.
        Some (take (length s3 - length s4) s3, n0 - length s4))))
   = (if take 4 s1 = js ''####'' then titleAfter n0 (drop 4 s1) else None)"
proof -
  have l4: "length (js ''####'') = 4" by (simp add: js_def)
  show ?thesis unfolding spaces_then_title lit_iff l4 ..
qed

lemma take_eq_prefix: "(take (length p) s = p) = (\<exists>r. s = p @ r)"
  by (metis append_eq_conv_conj append_take_drop_id)

lemma hashes4: "length (js ''####'') = 4"
  by (simp add: js_def)

lemma newline_hashes5: "length (newline # js ''####'') = 5"
  by (simp add: js_def)

lemma hd_hashes: "js ''####'' = hash # js ''###''"
  by (simp add: js_def)

lemma headingRegex_spec: "headingRegex atStart s = headingSpec atStart s"
proof -
  let ?H = "\<lambda>s1. if take 4 s1 = js ''####'' then titleAfter (length s) (drop 4 s1) else None"
  have unf: "headingRegex atStart s =
      (case (if atStart then ?H s else None) of Some r \<Rightarrow> Some r | None \<Rightarrow> lit [newline] s ?H)"
    unfolding headingRegex_def hashes_then_title alt_def bol_def ..
  have t4: "(take 4 x = js ''####'') = (\<exists>r. x = js ''####'' @ r)" for x
    using take_eq_prefix[of "js ''####''" x] by (simp only: hashes4)
  have t5: "(take 5 x = newline # js ''####'') = (\<exists>r. x = newline # js ''####'' @ r)" for x
    using take_eq_prefix[of "newline # js ''####''" x] by (simp only: newline_hashes5 append_Cons)
  have litnl: "lit [newline] x ?H = (case x of [] \<Rightarrow> None | c # cs \<Rightarrow> if c = newline then ?H cs else None)" for x
    by (cases x) simp_all
  consider (start) "atStart" "take 4 s = js ''####''"
    | (nl) "\<not> (atStart \<and> take 4 s = js ''####'')" "take 5 s = newline # js ''####''"
    | (none) "\<not> (atStart \<and> take 4 s = js ''####'')" "take 5 s \<noteq> newline # js ''####''"
    by blast
  then show ?thesis
  proof cases
    case start
    obtain r where r: "s = js ''####'' @ r" using start(2) t4 by blast
    have len: "length s = 0 + 4 + length (drop 4 s)" using r by (simp add: hashes4)
    have hdne: "hd s = hash" "s \<noteq> []" using r by (simp_all add: hd_hashes)
    have nn: "lit [newline] s ?H = None"
      unfolding litnl using hdne by (cases s) simp_all
    have "headingRegex atStart s = (case ?H s of Some r \<Rightarrow> Some r | None \<Rightarrow> None)"
      unfolding unf nn using start(1) by (simp only: if_True)
    also have "\<dots> = titleAfter (length s) (drop 4 s)"
      using start(2) by (simp only: if_True split: option.splits) simp
    also have "\<dots> = titleSpec 0 (drop 4 s)" by (rule titleAfter_length[OF len])
    also have "\<dots> = headingSpec atStart s"
      unfolding headingSpec_def using start by (simp only: simp_thms if_True)
    finally show ?thesis .
  next
    case nl
    obtain r where r: "s = newline # js ''####'' @ r" using nl(2) t5 by blast
    have len: "length s = 1 + 4 + length (drop 5 s)" using r by (simp add: hashes4)
    have d: "drop 4 (js ''####'' @ r) = drop 5 s" using r by (simp add: hashes4)
    have tk: "take 4 (js ''####'' @ r) = js ''####''" by (simp add: hashes4)
    have b: "(if atStart then ?H s else None) = None" using nl(1) by auto
    have "headingRegex atStart s = lit [newline] s ?H"
      unfolding unf b by simp
    also have "\<dots> = ?H (js ''####'' @ r)"
      unfolding litnl by (subst r) simp
    also have "\<dots> = titleAfter (length s) (drop 5 s)"
      by (simp only: tk d if_True simp_thms)
    also have "\<dots> = titleSpec 1 (drop 5 s)" by (rule titleAfter_length[OF len])
    also have "\<dots> = headingSpec atStart s"
      unfolding headingSpec_def using nl by (simp only: simp_thms if_True if_False)
    finally show ?thesis .
  next
    case none
    have b: "(if atStart then ?H s else None) = None" using none(1) by auto
    have c: "lit [newline] s ?H = None"
    proof (cases s)
      case Nil
      then show ?thesis by simp
    next
      case (Cons c cs)
      show ?thesis
      proof (cases "c = newline \<and> take 4 cs = js ''####''")
        case True
        then obtain r where "cs = js ''####'' @ r" using t4 by blast
        then have "s = newline # js ''####'' @ r" using Cons True by simp
        then have "take 5 s = newline # js ''####''" using t5 by blast
        then show ?thesis using none(2) by simp
      next
        case False
        then show ?thesis unfolding litnl Cons by auto
      qed
    qed
    have "headingRegex atStart s = None" unfolding unf b c by simp
    also have "\<dots> = headingSpec atStart s"
      unfolding headingSpec_def using none by (simp only: simp_thms if_True if_False)
    finally show ?thesis .
  qed
qed


lemma isDot_not_terminator: "isDot c = (\<not> isLineTerminator c)"
  by (auto simp: isDot_def isLineTerminator_def)

lemma not_space_isDot: "\<not> isSpace c \<Longrightarrow> isDot c"
  by (auto simp: isDot_def isSpace_def)

lemma titleSpec_title:
  assumes "titleSpec p r = Some (g, n)"
  shows "g \<noteq> [] \<and> (\<forall>c\<in>set g. \<not> isLineTerminator c)"
proof -
  let ?F = "filter (\<lambda>k. k < length r \<and> isDot (r ! k)) (rev [1..<Suc (length (takeWhile isSpace r))])"
  obtain k ks where F: "?F = k # ks"
    using assms unfolding titleSpec_def by (cases ?F) (simp_all only: list.case option.distinct)
  have k: "k < length r \<and> isDot (r ! k)"
    using F by (metis (mono_tags, lifting) Cons_eq_filterD)
  have g: "g = takeWhile isDot (drop k r)"
    using assms unfolding titleSpec_def F Let_def by (simp only: list.case option.inject prod.inject)
  have dk: "drop k r = r ! k # drop (Suc k) r" using k by (simp add: Cons_nth_drop_Suc)
  have ne: "g \<noteq> []" unfolding g using k by (subst dk) simp
  have "\<forall>c\<in>set g. isDot c" unfolding g by (metis set_takeWhileD)
  then show ?thesis using ne isDot_not_terminator by blast
qed

lemma headingSpec_title:
  assumes "headingSpec atStart s = Some (g, n)"
  shows "g \<noteq> [] \<and> (\<forall>c\<in>set g. \<not> isLineTerminator c)"
proof -
  have "titleSpec 0 (drop 4 s) = Some (g, n) \<or> titleSpec 1 (drop 5 s) = Some (g, n)"
    using assms unfolding headingSpec_def by (metis option.distinct(1))
  then show ?thesis using titleSpec_title by blast
qed

lemma titleSpec_same_line:
  assumes ws: "ws \<noteq> []" "\<forall>c\<in>set ws. isSpace c"
    and t: "t \<noteq> []" "\<not> isSpace (hd t)" "\<forall>c\<in>set t. isDot c"
    and rest: "rest = [] \<or> isLineTerminator (hd rest)"
  shows "titleSpec p (ws @ t @ rest) = Some (t, p + 4 + length ws + length t)"
proof -
  let ?r = "ws @ t @ rest"
  obtain c ts where ct: "t = c # ts" using t(1) by (cases t) auto
  have tw: "takeWhile isSpace ?r = ws" using ws(2) t(2) ct by (simp add: takeWhile_append2)
  have nth: "?r ! length ws = c" using ct by (simp add: nth_append)
  have cd: "isDot c" using t(3) ct by simp
  obtain w ws' where w: "ws = ws' @ [w]" using ws(1) by (metis rev_exhaust)
  have lw: "length ws = Suc (length ws')" using w by simp
  have idx: "rev [1..<Suc (length ws)] = length ws # rev [1..<length ws]"
    using lw by simp
  have F: "filter (\<lambda>k. k < length ?r \<and> isDot (?r ! k)) (rev [1..<Suc (length (takeWhile isSpace ?r))])
         = length ws # filter (\<lambda>k. k < length ?r \<and> isDot (?r ! k)) (rev [1..<length ws])"
    unfolding tw idx using nth cd ct by simp
  have dr: "drop (length ws) ?r = t @ rest" by simp
  have g: "takeWhile isDot (t @ rest) = t"
  proof (cases rest)
    case Nil
    then show ?thesis using t(3) by simp
  next
    case (Cons x xs)
    then have "\<not> isDot x" using rest isDot_not_terminator by simp
    then show ?thesis using t(3) Cons by (simp add: takeWhile_append2)
  qed
  show ?thesis unfolding titleSpec_def F Let_def by (simp only: list.case dr g)
qed


text \<open>
  C4, the heading boundary: the pattern of \<open>getChapters\<close> matches exactly as the
  description above says. The captured title is never empty and never contains a line
  terminator. For four hashes at the start of the text, whitespace, and a title that
  starts with a character that is not whitespace and ends at the end of the line, the
  match is that title. When the pattern matches nowhere, the text is ordinary content:
  one chapter \<open>Chapitre 1\<close>, or nothing for a blank text.
\<close>

theorem heading_boundary:
  "headingRegex atStart s = headingSpec atStart s
   \<and> (headingRegex atStart s = Some (g, n) \<longrightarrow> g \<noteq> [] \<and> (\<forall>c\<in>set g. \<not> isLineTerminator c))
   \<and> (ws \<noteq> [] \<and> (\<forall>c\<in>set ws. isSpace c) \<and> t \<noteq> [] \<and> \<not> isSpace (hd t)
        \<and> (\<forall>c\<in>set t. isDot c) \<and> (rest = [] \<or> isLineTerminator (hd rest))
      \<longrightarrow> headingRegex True (js ''####'' @ ws @ t @ rest) = Some (t, 4 + length ws + length t))
   \<and> (fullText \<noteq> []
        \<and> execFrom 0 (replaceAll (litRule [creturn, newline] [newline]) fullText) = None
      \<longrightarrow> getChapters fullText =
          Inr (let text = replaceAll (litRule [creturn, newline] [newline]) fullText
               in if length (trim text) > 0
                  then [\<lparr>title = js ''Chapitre 1'', content = trim text\<rparr>] else []))"
proof -
  have a: "headingRegex atStart s = headingSpec atStart s" by (rule headingRegex_spec)
  have b: "headingRegex atStart s = Some (g, n) \<longrightarrow> g \<noteq> [] \<and> (\<forall>c\<in>set g. \<not> isLineTerminator c)"
    unfolding a using headingSpec_title by blast
  have c: "headingRegex True (js ''####'' @ ws @ t @ rest) = Some (t, 4 + length ws + length t)"
    if h: "ws \<noteq> [] \<and> (\<forall>c\<in>set ws. isSpace c) \<and> t \<noteq> [] \<and> \<not> isSpace (hd t)
        \<and> (\<forall>c\<in>set t. isDot c) \<and> (rest = [] \<or> isLineTerminator (hd rest))"
  proof -
    have tk: "take 4 (js ''####'' @ ws @ t @ rest) = js ''####''" by (simp add: hashes4)
    have dr: "drop 4 (js ''####'' @ ws @ t @ rest) = ws @ t @ rest" by (simp add: hashes4)
    have "headingRegex True (js ''####'' @ ws @ t @ rest) = titleSpec 0 (ws @ t @ rest)"
      unfolding headingRegex_spec headingSpec_def by (simp only: tk dr simp_thms if_True)
    also have "\<dots> = Some (t, 0 + 4 + length ws + length t)"
      using titleSpec_same_line[of ws t rest 0] h by blast
    finally show ?thesis by simp
  qed
  have d: "getChapters fullText =
          Inr (let text = replaceAll (litRule [creturn, newline] [newline]) fullText
               in if length (trim text) > 0
                  then [\<lparr>title = js ''Chapitre 1'', content = trim text\<rparr>] else [])"
    if "fullText \<noteq> [] \<and> execFrom 0 (replaceAll (litRule [creturn, newline] [newline]) fullText) = None"
    using that unfolding getChapters_def Let_def by simp
  show ?thesis using a b c d by blast
qed

theorem heading_boundary_witness:
  "headingRegex True (js ''####  '') = Some ([space], 6) \<and> [space] \<noteq> ([] :: jstring)
   \<and> headingRegex True (js ''####'' @ [space] @ js ''A'' @ []) = Some (js ''A'', 6)
   \<and> getChapters (js ''#### '') = Inr [\<lparr>title = js ''Chapitre 1'', content = js ''####''\<rparr>]"
proof -
  have h1: "headingRegex True (js ''####  '') = Some ([space], 6)"
    by (simp add: headingRegex_def rx_simps)
  have h2: "[space] \<noteq> [] \<and> (\<forall>c\<in>set [space]. isSpace c) \<and> js ''A'' \<noteq> [] \<and> \<not> isSpace (hd (js ''A''))
        \<and> (\<forall>c\<in>set (js ''A''). isDot c) \<and> ([] = ([] :: jstring) \<or> isLineTerminator (hd []))"
    by (simp add: rx_simps)
  have h3: "js ''#### '' \<noteq> []
        \<and> execFrom 0 (replaceAll (litRule [creturn, newline] [newline]) (js ''#### '')) = None"
    by (simp add: headingRegex_def rx_simps)
  have e: "(let text = replaceAll (litRule [creturn, newline] [newline]) (js ''#### '')
               in if length (trim text) > 0
                  then [\<lparr>title = js ''Chapitre 1'', content = trim text\<rparr>] else [])
           = [\<lparr>title = js ''Chapitre 1'', content = js ''####''\<rparr>]"
    by (simp add: rx_simps)
  note T = heading_boundary[of True "js ''####  ''" "[space]" 6 "[space]" "js ''A''" "[]" "js ''#### ''"]
  have w1: "[space] \<noteq> ([] :: jstring)" using T h1 by blast
  have w2: "headingRegex True (js ''####'' @ [space] @ js ''A'' @ []) = Some (js ''A'', 4 + length [space] + length (js ''A''))"
    using T h2 by blast
  have w3: "getChapters (js ''#### '') = Inr [\<lparr>title = js ''Chapitre 1'', content = js ''####''\<rparr>]"
    using T h3 e by simp
  have l: "4 + length [space] + length (js ''A'') = 6" by (simp add: js_def)
  show ?thesis using h1 w1 w2 w3 l by simp
qed

text \<open>
  Four hashes followed by two spaces and nothing else are matched, with the title \<open>" "\<close>;
  four hashes alone on a line are matched with the title on the next line; and
  \<open>getChapters\<close> does not return \<open>"####  "\<close> as ordinary content.
\<close>

theorem heading_blank_title_matches:
  "headingRegex True (js ''####  '') = Some ([space], 6)
   \<and> headingRegex True (js ''####\<newline>foo'') = Some (js ''foo'', 8)
   \<and> getChapters (js ''####  '') \<noteq> Inr [\<lparr>title = js ''Chapitre 1'', content = js ''####''\<rparr>]"
  by (simp add: getChapters_def headingRegex_def rx_simps)


lemma quoteLoop_qscan_from:
  "j \<le> length line \<Longrightarrow>
   quoteLoop line j st acc =
     (acc @ fst (qscan st (if j = 0 then space else line ! (j - 1)) (drop j line)),
      snd (qscan st (if j = 0 then space else line ! (j - 1)) (drop j line)))"
proof (induction "length line - j" arbitrary: j acc st)
  case 0
  then have "j = length line" by simp
  then show ?case by (simp add: quoteLoop_done)
next
  case (Suc n)
  have lt: "j < length line" using Suc.hyps(2) by simp
  have n: "n = length line - Suc j" using Suc.hyps(2) by simp
  have le: "Suc j \<le> length line" using lt by simp
  have ih: "\<And>acc' st'. quoteLoop line (Suc j) st' acc' =
     (acc' @ fst (qscan st' (line ! j) (drop (Suc j) line)),
      snd (qscan st' (line ! j) (drop (Suc j) line)))"
    using Suc.hyps(1)[OF n le] by simp
  have dr: "drop j line = line ! j # drop (Suc j) line"
    using lt by (simp add: Cons_nth_drop_Suc)
  have nx: "(if j < length line - 1 then line ! (j + 1) else space) = nextOf (drop (Suc j) line)"
  proof (cases "Suc j < length line")
    case True
    then have "drop (Suc j) line = line ! Suc j # drop (Suc (Suc j)) line"
      by (simp add: Cons_nth_drop_Suc)
    moreover have "j < length line - 1" using True by arith
    ultimately show ?thesis by (simp add: nextOf_def)
  next
    case False
    then have "\<not> j < length line - 1" by arith
    then show ?thesis using False by (simp add: nextOf_def)
  qed
  have pv: "(if 0 < j then line ! (j - 1) else space) = (if j = 0 then space else line ! (j - 1))"
    by simp
  let ?c = "line ! j"
  let ?p = "if j = 0 then space else line ! (j - 1)"
  let ?cs = "drop (Suc j) line"
  have unf: "quoteLoop line j st acc =
     (if ?c = guilOpen then quoteLoop line (Suc j) True (acc @ [?c])
      else if ?c = guilClose then quoteLoop line (Suc j) False (acc @ [?c])
      else if ?c = apostrophe \<or> ?c = dquote then
        (if isAlphanumeric ?p \<and> isAlphanumeric (nextOf ?cs)
         then quoteLoop line (Suc j) st (acc @ [?c])
         else if st then quoteLoop line (Suc j) False (acc @ [guilClose])
         else quoteLoop line (Suc j) True (acc @ [guilOpen]))
      else quoteLoop line (Suc j) st (acc @ [?c]))"
    by (rule trans[OF quoteLoop_step[OF lt]]) (simp only: Let_def nx pv Suc_eq_plus1)
  consider (op) "?c = guilOpen" | (cl) "?c = guilClose"
    | (inner) "?c = apostrophe \<or> ?c = dquote" "isAlphanumeric ?p \<and> isAlphanumeric (nextOf ?cs)"
    | (bo) "?c = apostrophe \<or> ?c = dquote" "\<not> (isAlphanumeric ?p \<and> isAlphanumeric (nextOf ?cs))" "st"
    | (bc) "?c = apostrophe \<or> ?c = dquote" "\<not> (isAlphanumeric ?p \<and> isAlphanumeric (nextOf ?cs))" "\<not> st"
    | (other) "?c \<noteq> guilOpen" "?c \<noteq> guilClose" "?c \<noteq> apostrophe" "?c \<noteq> dquote"
    by blast
  then show ?case
  proof cases
    case op
    then show ?thesis unfolding unf dr by (simp add: ih)
  next
    case cl
    then show ?thesis unfolding unf dr by (simp add: ih)
  next
    case inner
    have g: "?c \<noteq> guilOpen" "?c \<noteq> guilClose" using inner(1) by auto
    show ?thesis unfolding unf dr using inner g by (simp add: ih)
  next
    case bo
    have g: "?c \<noteq> guilOpen" "?c \<noteq> guilClose" using bo(1) by auto
    show ?thesis unfolding unf dr using bo g by (simp add: ih)
  next
    case bc
    have g: "?c \<noteq> guilOpen" "?c \<noteq> guilClose" using bc(1) by auto
    show ?thesis unfolding unf dr using bc g by (simp add: ih)
  next
    case other
    then show ?thesis unfolding unf dr by (simp add: ih)
  qed
qed

lemma quoteLoop_qscan: "quoteLoop line 0 st [] = qscan st space line"
  using quoteLoop_qscan_from[of 0 line st "[]"] by simp

lemma not_alnum_simps [simp]:
  "\<not> isAlphanumeric space" "\<not> isAlphanumeric newline" "\<not> isAlphanumeric underscore"
  "\<not> isAlphanumeric guilOpen" "\<not> isAlphanumeric guilClose"
  "\<not> isAlphanumeric apostrophe" "\<not> isAlphanumeric dquote"
  by (simp_all add: isAlphanumeric_def)

lemma qscan_prev_cong:
  "isAlphanumeric p = isAlphanumeric p' \<Longrightarrow> qscan st p s = qscan st p' s"
  by (cases s) simp_all

lemma qscan_length: "length (fst (qscan st p s)) = length s"
  by (induction s arbitrary: st p) simp_all

lemma qscan_set: "set (fst (qscan st p s)) \<subseteq> set s \<union> {guilOpen, guilClose}"
  by (induction s arbitrary: st p) auto

lemma qscan_unmarked:
  "\<not> isMark c \<Longrightarrow> qscan st p (c # cs) = (c # fst (qscan st c cs), snd (qscan st c cs))"
  by (simp add: isMark_def)

lemma qscan_no_marks:
  "\<forall>c\<in>set u. \<not> isMark c \<Longrightarrow>
   qscan st p (u @ v) = (u @ fst (qscan st (last (p # u)) v), snd (qscan st (last (p # u)) v))"
proof (induction u arbitrary: p)
  case Nil
  then show ?case by simp
next
  case (Cons c u)
  have c: "\<not> isMark c" using Cons.prems by simp
  have l: "last (p # c # u) = last (c # u)" by simp
  show ?case
    using Cons.IH[of c] Cons.prems
    by (simp only: append_Cons qscan_unmarked[OF c] l) simp
qed

lemma nextOf_append:
  "\<not> isAlphanumeric x \<Longrightarrow> isAlphanumeric (nextOf (cs @ x # r)) = isAlphanumeric (nextOf cs)"
  by (cases cs) (simp_all add: nextOf_def)

lemma qscan_separator:
  assumes "\<not> isAlphanumeric x" "\<not> isMark x"
  shows "qscan st p (l @ x # r) =
     (fst (qscan st p l) @ x # fst (qscan (snd (qscan st p l)) x r),
      snd (qscan (snd (qscan st p l)) x r))"
proof (induction l arbitrary: st p)
  case Nil
  show ?case using qscan_unmarked[OF assms(2)] by simp
next
  case (Cons c cs)
  have n: "isAlphanumeric (nextOf (cs @ x # r)) = isAlphanumeric (nextOf cs)"
    using nextOf_append[OF assms(1)] .
  show ?case
    by (simp only: append_Cons qscan.simps n Cons.IH fst_conv snd_conv split: if_splits) simp
qed







lemma extractRegex_no_backtick: "c \<noteq> backtick \<Longrightarrow> extractRegex (c # cs) = None"
  by (simp add: extractRegex_def alt_def plusG_def)

lemma extractCode_no_backtick:
  "backtick \<notin> set t \<Longrightarrow> extractCode ph t = (t, ph)"
  by (induction t arbitrary: ph) (simp_all add: extractRegex_no_backtick)

lemma joinWith_Cons:
  "ls \<noteq> [] \<Longrightarrow> joinWith sep (x # ls) = x @ sep @ joinWith sep ls"
  by (cases ls) simp_all

lemma splitLines_not_Nil: "splitLines t \<noteq> []"
  by (induction t) (auto split: list.splits)

lemma join_splitLines: "joinWith [newline] (splitLines t) = t"
proof (induction t)
  case Nil
  show ?case by simp
next
  case (Cons c cs)
  obtain l ls where l: "splitLines cs = l # ls"
    using splitLines_not_Nil[of cs] by (cases "splitLines cs") auto
  show ?case
  proof (cases "c = newline")
    case True
    then show ?thesis using Cons.IH splitLines_not_Nil[of cs] by (simp add: joinWith_Cons)
  next
    case False
    show ?thesis
    proof (cases ls)
      case Nil
      then show ?thesis using False l Cons.IH by simp
    next
      case (Cons l2 ls2)
      then show ?thesis using False l Cons.IH by simp
    qed
  qed
qed

lemma splitLines_set: "l \<in> set (splitLines t) \<Longrightarrow> set l \<subseteq> set t"
proof (induction t arbitrary: l)
  case Nil
  then show ?case by simp
next
  case (Cons c cs)
  obtain l0 ls where l0: "splitLines cs = l0 # ls"
    using splitLines_not_Nil[of cs] by (cases "splitLines cs") auto
  show ?case
  proof (cases "c = newline")
    case True
    then show ?thesis using Cons by auto
  next
    case False
    then have "l = c # l0 \<or> l \<in> set ls" using Cons.prems l0 by simp
    then show ?thesis using Cons.IH[of l0] Cons.IH[of l] l0 by auto
  qed
qed

lemma collapse_Nil: "collapse (star # m) [] = []"
  by (simp add: collapse_def emphBoth_def emphLead_def emphTrail_def)

lemma collapse_no_star: "star \<notin> set l \<Longrightarrow> collapse (star # m) l = l"
  using collapse_prefix[of l m "[]"] by (simp add: collapse_Nil)

lemma starG_None:
  "(\<And>t. set t \<subseteq> set s \<Longrightarrow> k t = None) \<Longrightarrow> starG p s k = None"
proof (induction s)
  case Nil
  then show ?case by simp
next
  case (Cons c cs)
  have a: "k (c # cs) = None" using Cons.prems[of "c # cs"] by simp
  have b: "starG p cs k = None"
    by (rule Cons.IH) (use Cons.prems in auto)
  show ?case using a b by simp
qed

lemma listRegex_no_star: "star \<notin> set l \<Longrightarrow> listRegex l = None"
  unfolding listRegex_def
proof (rule starG_None)
  fix t assume "star \<notin> set l" "set t \<subseteq> set l"
  then have "star \<notin> set t" by auto
  then show "lit [star] t (\<lambda>s2. plusG isSpace s2 (\<lambda>s3.
           Some (take (length l - length t) l @ js ''__LIST__'' @ take (length s2 - length s3) s2,
                 length l - length s3))) = None"
    by (cases t) auto
qed

lemma fixEmphasisSpaces_no_star: "star \<notin> set l \<Longrightarrow> fixEmphasisSpaces l = l"
  by (simp add: fixEmphasisSpaces_def collapse_no_star listRegex_no_star)

lemma adjacent_set: "adjacent a b l \<Longrightarrow> a \<in> set l \<and> b \<in> set l"
  by (induction a b l rule: adjacent.induct) auto

lemma reorderMarkers_no_star: "star \<notin> set l \<Longrightarrow> reorderMarkers l = l"
  using reorderMarkers_id[of l] adjacent_set unfolding misplaced_def by blast


lemma starG_Some_split:
  "starG p s k = Some r \<Longrightarrow> \<exists>ds s2. s = ds @ s2 \<and> (\<forall>c\<in>set ds. p c) \<and> k s2 = Some r"
proof (induction s)
  case Nil
  then show ?case by auto
next
  case (Cons c cs)
  show ?case
  proof (cases "p c \<and> starG p cs k = Some r")
    case True
    then obtain ds s2 where "cs = ds @ s2" "\<forall>c\<in>set ds. p c" "k s2 = Some r"
      using Cons.IH by blast
    then have "c # cs = (c # ds) @ s2 \<and> (\<forall>x\<in>set (c # ds). p x) \<and> k s2 = Some r"
      using True by simp
    then show ?thesis by blast
  next
    case False
    then have "k (c # cs) = Some r" using Cons.prems by (auto split: option.splits if_splits)
    then have "c # cs = [] @ (c # cs) \<and> (\<forall>x\<in>set []. p x) \<and> k (c # cs) = Some r" by simp
    then show ?thesis by blast
  qed
qed

lemma plusG_Some_split:
  assumes "plusG p s k = Some r"
  shows "\<exists>ds s2. s = ds @ s2 \<and> ds \<noteq> [] \<and> (\<forall>c\<in>set ds. p c) \<and> k s2 = Some r"
proof -
  obtain c cs where s: "s = c # cs" "p c" "starG p cs k = Some r"
    using assms unfolding plusG_def by (cases s) (auto split: if_splits)
  obtain ds s2 where "cs = ds @ s2" "\<forall>c\<in>set ds. p c" "k s2 = Some r"
    using starG_Some_split[OF s(3)] by blast
  then have "s = (c # ds) @ s2 \<and> c # ds \<noteq> [] \<and> (\<forall>x\<in>set (c # ds). p x) \<and> k s2 = Some r"
    using s by simp
  then show ?thesis by blast
qed

lemma lit_Some_split: "lit pat s k = Some r \<Longrightarrow> \<exists>s1. s = pat @ s1 \<and> k s1 = Some r"
  unfolding lit_iff by (metis append_take_drop_id option.distinct(1))

lemma isDigit_not_mark: "isDigit c \<Longrightarrow> \<not> isMark c"
  by (auto simp: isDigit_def isMark_def)

lemma isSpace_not_mark: "isSpace c \<Longrightarrow> \<not> isMark c"
  by (auto simp: isSpace_def isMark_def)

lemma token_chars_not_mark:
  "\<forall>c\<in>set (js ''__CODE_BLOCK_''). \<not> isMark c" "\<forall>c\<in>set (js ''__''). \<not> isMark c"
  by (simp_all add: js_def isMark_def)

lemma isPlaceholderLine_shape:
  assumes "isPlaceholderLine s"
  shows "\<exists>ds. s = js ''__CODE_BLOCK_'' @ ds @ js ''__'' \<and> ds \<noteq> [] \<and> (\<forall>c\<in>set ds. isDigit c)"
proof -
  obtain r where r: "lit (js ''__CODE_BLOCK_'') s (\<lambda>s1.
        plusG isDigit s1 (\<lambda>s2. lit (js ''__'') s2 (\<lambda>s3. eoi s3 (\<lambda>s4. Some ())))) = Some r"
    using assms unfolding isPlaceholderLine_def by blast
  obtain s1 where s1: "s = js ''__CODE_BLOCK_'' @ s1"
    "plusG isDigit s1 (\<lambda>s2. lit (js ''__'') s2 (\<lambda>s3. eoi s3 (\<lambda>s4. Some ()))) = Some r"
    using lit_Some_split[OF r] by blast
  obtain ds s2 where ds: "s1 = ds @ s2" "ds \<noteq> []" "\<forall>c\<in>set ds. isDigit c"
    "lit (js ''__'') s2 (\<lambda>s3. eoi s3 (\<lambda>s4. Some ())) = Some r"
    using plusG_Some_split[OF s1(2)] by blast
  obtain s3 where s3: "s2 = js ''__'' @ s3" "eoi s3 (\<lambda>s4. Some ()) = Some r"
    using lit_Some_split[OF ds(4)] by blast
  have "s3 = []" using s3(2) unfolding eoi_def by (auto split: if_splits)
  then show ?thesis using s1(1) ds s3(1) by auto
qed

lemma set_dropWhile_sub: "set xs \<subseteq> set (dropWhile P xs) \<union> {x. P x}"
  by (induction xs) auto

lemma set_trim_sub: "set l \<subseteq> set (trim l) \<union> {c. isSpace c}"
proof -
  have a: "set l \<subseteq> set (dropWhile isSpace l) \<union> {c. isSpace c}" by (rule set_dropWhile_sub)
  have b: "set (rev (dropWhile isSpace l))
        \<subseteq> set (dropWhile isSpace (rev (dropWhile isSpace l))) \<union> {c. isSpace c}"
    by (rule set_dropWhile_sub)
  show ?thesis unfolding trim_def using a b by auto
qed

lemma placeholder_line_no_marks:
  assumes "isPlaceholderLine (trim l)"
  shows "\<forall>c\<in>set l. \<not> isMark c"
proof -
  obtain ds where ds: "trim l = js ''__CODE_BLOCK_'' @ ds @ js ''__''" "\<forall>c\<in>set ds. isDigit c"
    using isPlaceholderLine_shape[OF assms] by blast
  have "\<forall>c\<in>set (trim l). \<not> isMark c"
    unfolding ds(1) using ds(2) token_chars_not_mark isDigit_not_mark by auto
  then show ?thesis using set_trim_sub[of l] isSpace_not_mark by blast
qed

lemma qscan_no_marks_id: "\<forall>c\<in>set l. \<not> isMark c \<Longrightarrow> qscan st p l = (l, st)"
  using qscan_no_marks[of l st p "[]"] by simp

lemma star_not_guil: "star \<noteq> guilOpen" "star \<noteq> guilClose"
  by simp_all

lemma processLines_no_star:
  assumes "star \<notin> set l"
  shows "processLines st (l # rest) =
     (fst (qscan st space l) # fst (processLines (snd (qscan st space l)) rest),
      snd (processLines (snd (qscan st space l)) rest))"
proof (cases "isPlaceholderLine (trim l)")
  case True
  have "qscan st space l = (l, st)"
    using qscan_no_marks_id[OF placeholder_line_no_marks[OF True]] .
  then show ?thesis using True by (simp add: split_beta)
next
  case False
  have f: "fixEmphasisSpaces l = l" using fixEmphasisSpaces_no_star[OF assms] .
  have q: "quoteLoop l 0 st [] = qscan st space l" by (rule quoteLoop_qscan)
  have "star \<notin> set (fst (qscan st space l))" using qscan_set[of st space l] assms by auto
  then have r: "reorderMarkers (fst (qscan st space l)) = fst (qscan st space l)"
    by (rule reorderMarkers_no_star)
  show ?thesis using False by (simp add: split_beta f q r)
qed

lemma processLines_not_Nil: "fst (processLines st (l # ls)) \<noteq> []"
  by (simp add: split_beta Let_def)

lemma processLines_join:
  "ls \<noteq> [] \<Longrightarrow> \<forall>l\<in>set ls. star \<notin> set l \<Longrightarrow>
   joinWith [newline] (fst (processLines st ls)) = fst (qscan st space (joinWith [newline] ls))
   \<and> snd (processLines st ls) = snd (qscan st space (joinWith [newline] ls))"
proof (induction ls arbitrary: st)
  case Nil
  then show ?case by simp
next
  case (Cons l rest)
  have sl: "star \<notin> set l" using Cons.prems(2) by simp
  note pl = processLines_no_star[OF sl, of st rest]
  show ?case
  proof (cases rest)
    case Nil
    then show ?thesis using pl by simp
  next
    case (Cons l2 rest2)
    let ?s1 = "snd (qscan st space l)"
    have ne: "rest \<noteq> []" using Cons by simp
    have ih: "joinWith [newline] (fst (processLines ?s1 rest)) = fst (qscan ?s1 space (joinWith [newline] rest))
       \<and> snd (processLines ?s1 rest) = snd (qscan ?s1 space (joinWith [newline] rest))"
      using Cons.IH[OF ne, of ?s1] Cons.prems(2) by simp
    have ne': "fst (processLines ?s1 rest) \<noteq> []" using Cons processLines_not_Nil by simp
    have j: "joinWith [newline] (l # rest) = l @ newline # joinWith [newline] rest"
      using joinWith_Cons[OF ne] by simp
    have nm: "\<not> isMark newline" by (simp add: isMark_def)
    have sep: "qscan st space (l @ newline # joinWith [newline] rest) =
       (fst (qscan st space l) @ newline # fst (qscan ?s1 newline (joinWith [newline] rest)),
        snd (qscan ?s1 newline (joinWith [newline] rest)))"
      by (rule qscan_separator) (simp_all add: nm)
    have pc: "qscan ?s1 newline (joinWith [newline] rest) = qscan ?s1 space (joinWith [newline] rest)"
      by (rule qscan_prev_cong) simp
    show ?thesis
      unfolding j sep pc pl using ih joinWith_Cons[OF ne'] by simp
  qed
qed

lemma process_plain:
  assumes "star \<notin> set t" "backtick \<notin> set t" "t \<noteq> []"
  shows "process t = restoreCode [] (fst (qscan False space t))"
proof -
  have e: "extractCode [] t = (t, [])" using extractCode_no_backtick[OF assms(2)] .
  have ls: "\<forall>l\<in>set (splitLines t). star \<notin> set l" using splitLines_set assms(1) by blast
  have j: "joinWith [newline] (fst (processLines False (splitLines t)))
         = fst (qscan False space (joinWith [newline] (splitLines t)))"
    using processLines_join[OF splitLines_not_Nil ls] by blast
  show ?thesis
    unfolding process_def using assms(3) by (simp add: e split_beta j join_splitLines)
qed

lemma starG_success: "k (dropWhile p s) = Some r \<Longrightarrow> starG p s k = Some r"
  by (induction s) auto

lemma underscore_not_digit: "\<not> isDigit underscore"
  by (simp add: isDigit_def)

lemma tokenRegex_match:
  assumes "ds \<noteq> []" "\<forall>c\<in>set ds. isDigit c"
  shows "tokenRegex (token ds @ rest) = Some (ds, length (token ds))"
proof -
  let ?s = "token ds @ rest"
  let ?s1 = "ds @ js ''__'' @ rest"
  let ?k = "\<lambda>s2. lit (js ''__'') s2 (\<lambda>s3. Some (take (length ?s1 - length s2) ?s1, length ?s - length s3))"
  obtain d ds' where d: "ds = d # ds'" using assms(1) by (cases ds) auto
  have u: "js ''__'' = underscore # [underscore]" by (simp add: js_def)
  have dw: "dropWhile isDigit (ds' @ js ''__'' @ rest) = js ''__'' @ rest"
    using assms(2) d underscore_not_digit by (simp add: dropWhile_append3 u)
  have tk: "take (length (js ''__CODE_BLOCK_'')) ?s = js ''__CODE_BLOCK_''"
    by (simp add: token_def)
  have dr: "drop (length (js ''__CODE_BLOCK_'')) ?s = ?s1"
    by (simp add: token_def)
  have k: "?k (js ''__'' @ rest) = Some (ds, length (token ds))"
    by (simp add: lit_iff token_def)
  have "tokenRegex ?s = plusG isDigit ?s1 ?k"
    unfolding tokenRegex_def lit_iff[of "js ''__CODE_BLOCK_''"] tk dr by (simp only: if_True simp_thms)
  also have "\<dots> = starG isDigit (ds' @ js ''__'' @ rest) ?k"
    using assms(2) d by (simp add: plusG_def)
  also have "\<dots> = Some (ds, length (token ds))"
    by (rule starG_success) (simp only: dw k)
  finally show ?thesis .
qed


lemma tokenRegex_first: "c \<noteq> underscore \<Longrightarrow> tokenRegex (c # cs) = None"
  by (simp add: tokenRegex_def js_def)


lemma token_length_pos: "length (token ds) = 15 + length ds"
  by (simp add: token_def js_def)

lemma restoreCode_match:
  assumes "ds \<noteq> []" "\<forall>c\<in>set ds. isDigit c"
  shows "restoreCode ph (token ds @ rest) = placeholderAt ph (parseInt ds) @ restoreCode ph rest"
proof -
  obtain c cs where c: "token ds @ rest = c # cs" by (cases "token ds @ rest") (simp_all add: token_def js_def)
  have m: "restoreRule ph (c # cs) = Some (placeholderAt ph (parseInt ds), length (token ds))"
    unfolding restoreRule_def c[symmetric] tokenRegex_match[OF assms] by simp
  have d: "drop (length (token ds) - 1) cs = rest"
  proof -
    have "drop (length (token ds)) (c # cs) = rest" unfolding c[symmetric] by simp
    moreover have "length (token ds) = Suc (length (token ds) - 1)" by (simp add: token_length_pos)
    ultimately show ?thesis by (metis drop_Suc_Cons)
  qed
  show ?thesis
    unfolding restoreCode_def c using m d by (simp add: token_length_pos)
qed






lemma placeholderAt_Nil: "placeholderAt [] i = js ''undefined''"
  by (simp add: placeholderAt_def)


lemma token_chars:
  assumes "\<forall>c\<in>set ds. isDigit c"
  shows "\<forall>c\<in>set (token ds). \<not> isMark c" "last (p # token ds) = underscore" "117 \<notin> set (token ds)"
    "hd (token ds) = underscore" "token ds \<noteq> []"
proof -
  show "\<forall>c\<in>set (token ds). \<not> isMark c"
    using assms isDigit_not_mark token_chars_not_mark by (auto simp: token_def)
  show "last (p # token ds) = underscore" by (simp add: token_def js_def)
  show "117 \<notin> set (token ds)" using assms by (auto simp: token_def js_def isDigit_def)
  show "hd (token ds) = underscore" by (simp add: token_def js_def)
  show "token ds \<noteq> []" by (simp add: token_def js_def)
qed








lemma token_plain:
  assumes "\<forall>c\<in>set ds. isDigit c"
  shows "star \<notin> set (token ds)" "backtick \<notin> set (token ds)"
  using assms by (auto simp: token_def js_def isDigit_def)

lemma process_literal_token:
  assumes ds: "ds \<noteq> []" "\<forall>c\<in>set ds. isDigit c"
    and pre: "star \<notin> set pre" "backtick \<notin> set pre" "underscore \<notin> set pre"
    and post: "star \<notin> set post" "backtick \<notin> set post"
  shows "process (pre @ token ds @ post) =
     fst (quoteLoop pre 0 False []) @ js ''undefined''
     @ restoreCode [] (fst (quoteLoop post 0 (snd (quoteLoop pre 0 False [])) []))"
proof -
  let ?x = "pre @ token ds @ post"
  let ?o1 = "fst (qscan False space pre)"
  let ?s1 = "snd (qscan False space pre)"
  let ?o3 = "fst (qscan ?s1 space post)"
  obtain u where tk: "token ds = underscore # u"
    using token_chars(4,5)[OF ds(2)] by (cases "token ds") auto
  have um: "\<forall>c\<in>set u. \<not> isMark c"
    using token_chars(1)[OF ds(2)] unfolding tk by simp
  have lu: "last (underscore # u) = underscore"
    using token_chars(2)[OF ds(2), of underscore] unfolding tk by simp
  have xs: "star \<notin> set ?x" using pre(1) post(1) token_plain(1)[OF ds(2)] by simp
  have xb: "backtick \<notin> set ?x" using pre(2) post(2) token_plain(2)[OF ds(2)] by simp
  have xne: "?x \<noteq> []" using token_chars(5)[OF ds(2)] by simp
  have px: "process ?x = restoreCode [] (fst (qscan False space ?x))"
    using process_plain[OF xs xb xne] .
  have nm: "\<not> isAlphanumeric underscore" "\<not> isMark underscore" by (simp_all add: isMark_def)
  have a: "qscan False space (pre @ underscore # (u @ post)) =
      (?o1 @ underscore # fst (qscan ?s1 underscore (u @ post)),
       snd (qscan ?s1 underscore (u @ post)))"
    by (rule qscan_separator[OF nm])
  have b: "qscan ?s1 underscore (u @ post) =
      (u @ fst (qscan ?s1 underscore post), snd (qscan ?s1 underscore post))"
    using qscan_no_marks[OF um, of ?s1 underscore post] unfolding lu .
  have c: "qscan ?s1 underscore post = qscan ?s1 space post"
    by (rule qscan_prev_cong) simp
  have x: "?x = pre @ underscore # (u @ post)" unfolding tk by simp
  have "fst (qscan False space ?x) = fst (qscan False space (pre @ underscore # (u @ post)))"
    using x by simp
  also have "\<dots> = ?o1 @ underscore # fst (qscan ?s1 underscore (u @ post))"
    using a by simp
  also have "\<dots> = ?o1 @ underscore # u @ fst (qscan ?s1 underscore post)"
    using b by simp
  also have "\<dots> = ?o1 @ token ds @ ?o3"
    using c tk by simp
  finally have q: "fst (qscan False space ?x) = ?o1 @ token ds @ ?o3" .
  have o1: "underscore \<notin> set ?o1" using qscan_set[of False space pre] pre(3) by auto
  have f: "restoreRule [] (c # r) = None" if "c \<in> set ?o1" for c r
  proof -
    have "c \<noteq> underscore" using that o1 by auto
    then show ?thesis by (simp add: restoreRule_def tokenRegex_first)
  qed
  have "restoreCode [] (?o1 @ token ds @ ?o3) = ?o1 @ restoreCode [] (token ds @ ?o3)"
    unfolding restoreCode_def by (rule replaceAll_prefix) (rule f)
  also have "\<dots> = ?o1 @ js ''undefined'' @ restoreCode [] ?o3"
    using restoreCode_match[OF ds, of "[]" ?o3] by (simp add: placeholderAt_Nil)
  finally show ?thesis unfolding px q quoteLoop_qscan .
qed

section \<open>Emphasis spacing around one pair of markers\<close>



lemma stars_snoc: "m \<noteq> [] \<Longrightarrow> set m \<subseteq> {star} \<Longrightarrow> m = butlast m @ [star]"
proof -
  assume a: "m \<noteq> []" "set m \<subseteq> {star}"
  have "last m \<in> set m" using a(1) by simp
  then have "last m = star" using a(2) by auto
  then show ?thesis using a(1) append_butlast_last_id[of m] by simp
qed

lemma takeWhile_stars:
  assumes "set ks \<subseteq> {star}" "R = [] \<or> hd R \<noteq> star"
  shows "takeWhile (\<lambda>c. c = star) (ks @ R) = ks"
proof -
  have a: "\<forall>c\<in>set ks. c = star" using assms(1) by auto
  have b: "takeWhile (\<lambda>c. c = star) R = []" using assms(2) by (cases R) auto
  show ?thesis using a b by (simp add: takeWhile_append2)
qed

lemma lit_stars_split:
  assumes "lit m' (ks @ R) K = Some r" "set m' \<subseteq> {star}" "set ks \<subseteq> {star}"
    "R = [] \<or> hd R \<noteq> star"
  shows "\<exists>ks'. ks = m' @ ks' \<and> K (ks' @ R) = Some r"
proof -
  obtain s1 where s1: "ks @ R = m' @ s1" "K s1 = Some r"
    using lit_Some_split[OF assms(1)] by blast
  have a: "\<forall>c\<in>set m'. c = star" using assms(2) by auto
  have "ks = takeWhile (\<lambda>c. c = star) (m' @ s1)"
    using takeWhile_stars[OF assms(3,4)] s1(1) by simp
  also have "\<dots> = m' @ takeWhile (\<lambda>c. c = star) s1"
    using a by (simp add: takeWhile_append2)
  finally have k: "ks = m' @ takeWhile (\<lambda>c. c = star) s1" .
  let ?ks' = "takeWhile (\<lambda>c. c = star) s1"
  have "m' @ ?ks' @ R = m' @ s1" using s1(1) k by (metis append.assoc)
  then have "s1 = ?ks' @ R" by simp
  then show ?thesis using k s1(2) by metis
qed

lemma plusG_hd: "plusG p s k = Some r \<Longrightarrow> s \<noteq> [] \<and> p (hd s)"
  unfolding plusG_def by (cases s) (auto split: if_splits)




















































section \<open>The dialogue state across lines\<close>

lemma processLines_Cons:
  "processLines st (l # rest) =
     (lineOutput st l # fst (processLines (stateAfterLine st l) rest),
      snd (processLines (stateAfterLine st l) rest))"
  by (simp add: lineOutput_def stateAfterLine_def quoteLoop_spec split_beta Let_def)

lemma stateAtLine_Suc: "stateAtLine st (l # rest) (Suc i) = stateAtLine (stateAfterLine st l) rest i"
  by (simp add: stateAtLine_def)

lemma processLines_threads:
  "processLines st ls =
     (map (\<lambda>i. lineOutput (stateAtLine st ls i) (ls ! i)) [0..<length ls],
      stateAtLine st ls (length ls))"
proof (induction ls arbitrary: st)
  case Nil
  then show ?case by (simp add: stateAtLine_def)
next
  case (Cons l rest)
  have m: "map (\<lambda>i. lineOutput (stateAtLine st (l # rest) i) ((l # rest) ! i)) [0..<length (l # rest)]
     = lineOutput st l # map (\<lambda>i. lineOutput (stateAtLine (stateAfterLine st l) rest i) (rest ! i)) [0..<length rest]"
  proof -
    have "[0..<length (l # rest)] = 0 # map Suc [0..<length rest]"
      by (simp add: upt_conv_Cons map_Suc_upt del: upt_Suc)
    then show ?thesis
      by (simp add: stateAtLine_Suc comp_def del: upt_Suc) (simp add: stateAtLine_def)
  qed
  show ?case
    unfolding processLines_Cons m Cons.IH[of "stateAfterLine st l"]
    by (simp add: stateAtLine_Suc)
qed

lemma stateBefore_parity:
  "guilOpen \<notin> set line \<Longrightarrow> guilClose \<notin> set line \<Longrightarrow> j \<le> length line \<Longrightarrow>
   stateBefore st line j = (st \<noteq> odd (boundariesBefore line j))"
proof (induction j)
  case 0
  then show ?case by (simp add: boundariesBefore_def)
next
  case (Suc j)
  have lt: "j < length line" using Suc.prems(3) by simp
  have g: "line ! j \<noteq> guilOpen" "line ! j \<noteq> guilClose"
    using Suc.prems(1,2) lt nth_mem by metis+
  have ih: "stateBefore st line j = (st \<noteq> odd (boundariesBefore line j))"
    using Suc.IH[OF Suc.prems(1,2)] lt by simp
  show ?case using g ih by (auto simp: boundariesBefore_def)
qed

lemma processLines_whole_text:
  assumes "star \<notin> set t"
  shows "joinWith [newline] (fst (processLines st (splitLines t))) = fst (quoteLoop t 0 st [])
     \<and> snd (processLines st (splitLines t)) = snd (quoteLoop t 0 st [])"
proof -
  have ls: "\<forall>l\<in>set (splitLines t). star \<notin> set l" using splitLines_set assms by blast
  show ?thesis
    using processLines_join[OF splitLines_not_Nil ls, of st]
    by (simp add: join_splitLines quoteLoop_qscan)
qed

text \<open>
  Claim C6, the dialogue state across lines, amended in its last clause. The loop over the
  lines hands one flag from line to line: line \<open>i\<close> is scanned in the state that the
  lines before it have left, a skipped line leaves the state as it is, and the state at
  the end is the one left by the last line. Nothing resets it: for a manuscript without
  asterisks, scanning line by line gives what one scan of the whole text gives, the
  newlines being characters like any other. On a line without guillemets every quotation
  boundary flips the state, so the state before a position is the state the line was
  entered in, flipped once for each boundary before it. An opening quote left open on one
  line is closed by the quote of the next line, also across a blank line. Two pairs of
  straight quotes on a line entered with the state closed give two pairs of guillemets;
  entered with the state open they give closing and opening guillemets the other way
  round.
\<close>

theorem dialogue_state_across_lines:
  "processLines st ls =
     (map (\<lambda>i. lineOutput (stateAtLine st ls i) (ls ! i)) [0..<length ls],
      stateAtLine st ls (length ls))
   \<and> (star \<notin> set t \<longrightarrow>
        joinWith [newline] (fst (processLines st (splitLines t))) = fst (quoteLoop t 0 st [])
        \<and> snd (processLines st (splitLines t)) = snd (quoteLoop t 0 st []))
   \<and> (guilOpen \<notin> set line \<and> guilClose \<notin> set line \<and> j \<le> length line \<longrightarrow>
        stateBefore st line j = (st \<noteq> odd (boundariesBefore line j)))
   \<and> process (js ''\"a\<newline>\"b'') = [guilOpen] @ js ''a\<newline>'' @ [guilClose] @ js ''b''
   \<and> process (js ''\"a\<newline>\<newline>\"b'') = [guilOpen] @ js ''a\<newline>\<newline>'' @ [guilClose] @ js ''b''
   \<and> process (js ''He said \"hi\" and \"bye\"'')
       = js ''He said '' @ [guilOpen] @ js ''hi'' @ [guilClose]
         @ js '' and '' @ [guilOpen] @ js ''bye'' @ [guilClose]
   \<and> processLines True [js ''He said \"hi\" and \"bye\"'']
       = ([js ''He said '' @ [guilClose] @ js ''hi'' @ [guilOpen]
           @ js '' and '' @ [guilClose] @ js ''bye'' @ [guilOpen]], True)"
proof -
  have a: "process (js ''\"a\<newline>\"b'') = [guilOpen] @ js ''a\<newline>'' @ [guilClose] @ js ''b''"
    by (simp add: proc_simps fix_simps rx_simps)
  have b: "process (js ''\"a\<newline>\<newline>\"b'')
           = [guilOpen] @ js ''a\<newline>\<newline>'' @ [guilClose] @ js ''b''"
    by (simp add: proc_simps fix_simps rx_simps)
  have c: "process (js ''He said \"hi\" and \"bye\"'')
       = js ''He said '' @ [guilOpen] @ js ''hi'' @ [guilClose]
         @ js '' and '' @ [guilOpen] @ js ''bye'' @ [guilClose]"
    by (simp add: proc_simps fix_simps rx_simps)
  have d: "processLines True [js ''He said \"hi\" and \"bye\"'']
       = ([js ''He said '' @ [guilClose] @ js ''hi'' @ [guilOpen]
           @ js '' and '' @ [guilClose] @ js ''bye'' @ [guilOpen]], True)"
    by (simp add: proc_simps fix_simps rx_simps)
  show ?thesis
    using processLines_threads processLines_whole_text stateBefore_parity a b c d by blast
qed

theorem dialogue_state_across_lines_witness:
  "processLines False [js ''\"a'', [], js ''b\"'']
     = ([guilOpen # js ''a'', [], js ''b'' @ [guilClose]], False)
   \<and> stateAtLine False [js ''\"a'', [], js ''b\"''] (Suc (Suc 0)) = True
   \<and> star \<notin> set (js ''\"a\<newline>\"b'')
   \<and> joinWith [newline] (fst (processLines False (splitLines (js ''\"a\<newline>\"b''))))
       = fst (quoteLoop (js ''\"a\<newline>\"b'') 0 False [])
   \<and> guilOpen \<notin> set (js ''\"a \"'') \<and> guilClose \<notin> set (js ''\"a \"'')
   \<and> stateBefore False (js ''\"a \"'') (length (js ''\"a \"''))
       = (False \<noteq> odd (boundariesBefore (js ''\"a \"'') (length (js ''\"a \"''))))
   \<and> boundariesBefore (js ''\"a \"'') (length (js ''\"a \"'')) = Suc (Suc 0)"
  using dialogue_state_across_lines
    [of False "[js ''\"a'', [], js ''b\"'']" "js ''\"a\<newline>\"b''" "js ''\"a \"''"
        "length (js ''\"a \"'')"]
  by (simp add: stateAtLine_def stateAfterLine_def lineOutput_def boundariesBefore_def
      isQuotationBoundary_def neighboursAlphanumeric_def latin1LetterOrDigit_def emitted_def
      proc_simps fix_simps rx_simps)

text \<open>
  Claim C6 as stated fails in its last clause when the line is entered with the dialogue
  open: after a first line made of one straight quote, the two pairs of straight quotes of
  the second line come out as a closing guillemet before and an opening guillemet behind
  each word, not as two guillemet pairs.
\<close>

theorem dialogue_entered_open:
  "process (js ''\"\<newline>He said \"hi\" and \"bye\"'')
     = [guilOpen] @ js ''\<newline>He said '' @ [guilClose] @ js ''hi'' @ [guilOpen]
       @ js '' and '' @ [guilClose] @ js ''bye'' @ [guilOpen]"
  by (simp add: proc_simps fix_simps rx_simps)

section \<open>Idempotence of process\<close>





section \<open>Tokens written in the manuscript\<close>

text \<open>
  Claim C10, amended. The restoration pass replaces the matches of the token pattern taken
  from left to right without overlap: where the text at the current position is
  \<open>__CODE_BLOCK_<ds>__\<close> for a non-empty string of digits \<open>ds\<close>, the token is replaced by
  the fragment of index \<open>parseInt ds\<close>, or by the string \<open>undefined\<close> when no fragment has
  that index, and the pass goes on behind the token. The tokens made by the extraction have
  this form. A token written in a manuscript is replaced in the same way: in a manuscript
  without asterisks and backticks in which no underscore stands before the token, the
  output is the quote scan of the text before the token, then \<open>undefined\<close>, then the
  restoration of the quote scan of the text behind it.
\<close>

theorem placeholder_collision:
  assumes "ds \<noteq> []" "\<forall>c\<in>set ds. isDigit c"
  shows "restoreCode ph (token ds @ rest) = placeholderAt ph (parseInt ds) @ restoreCode ph rest
    \<and> (length ph \<le> parseInt ds \<longrightarrow> placeholderAt ph (parseInt ds) = js ''undefined'')
    \<and> (parseInt ds < length ph \<longrightarrow> placeholderAt ph (parseInt ds) = ph ! parseInt ds)
    \<and> placeholder i = token (decimal i)
    \<and> (star \<notin> set pre \<and> backtick \<notin> set pre \<and> underscore \<notin> set pre
        \<and> star \<notin> set post \<and> backtick \<notin> set post \<longrightarrow>
        process (pre @ token ds @ post) =
          fst (quoteLoop pre 0 False []) @ js ''undefined''
          @ restoreCode [] (fst (quoteLoop post 0 (snd (quoteLoop pre 0 False [])) [])))"
proof -
  have a: "restoreCode ph (token ds @ rest)
      = placeholderAt ph (parseInt ds) @ restoreCode ph rest"
    by (rule restoreCode_match[OF assms])
  have b: "length ph \<le> parseInt ds \<longrightarrow> placeholderAt ph (parseInt ds) = js ''undefined''"
    by (simp add: placeholderAt_def)
  have c: "parseInt ds < length ph \<longrightarrow> placeholderAt ph (parseInt ds) = ph ! parseInt ds"
    by (simp add: placeholderAt_def)
  have d: "placeholder i = token (decimal i)"
    by (simp add: placeholder_def token_def)
  show ?thesis using a b c d process_literal_token[OF assms] by blast
qed

theorem placeholder_collision_witness:
  "js ''0'' \<noteq> [] \<and> list_all isDigit (js ''0'')
   \<and> star \<notin> set (js ''a '') \<and> backtick \<notin> set (js ''a '') \<and> underscore \<notin> set (js ''a '')
   \<and> star \<notin> set (js '' b'') \<and> backtick \<notin> set (js '' b'')
   \<and> js ''a '' @ token (js ''0'') @ js '' b'' = js ''a __CODE_BLOCK_0__ b''
   \<and> process (js ''a __CODE_BLOCK_0__ b'') = js ''a undefined b''"
  using placeholder_collision [of "js ''0''" "[]" "[]" 0 "js ''a ''" "js '' b''"]
  by (simp add: token_def proc_simps fix_simps rx_simps)

text \<open>
  Claim C10 as stated fails for overlapping tokens. In \<open>__CODE_BLOCK_1__CODE_BLOCK_2__\<close>
  the text \<open>__CODE_BLOCK_2__\<close> is a token whose index has no fragment, but the match of
  the token of index 1 before it takes its first two underscores, so it is neither
  replaced by \<open>undefined\<close> nor kept: \<open>CODE_BLOCK_2__\<close> is what is left of it.
\<close>

theorem placeholder_overlap:
  "js ''__CODE_BLOCK_1'' @ token (js ''2'') = js ''__CODE_BLOCK_1__CODE_BLOCK_2__''
   \<and> process (js ''__CODE_BLOCK_1__CODE_BLOCK_2__'') = js ''undefinedCODE_BLOCK_2__''"
  by (simp add: token_def proc_simps fix_simps rx_simps)

end
